theory Spec2Isabelle
  imports Main "HOL-Library.AList"
begin

text \<open>
  A model of \<open>fetchTweets.js\<close>: the cache of watermarks and account IDs, the bootstrap
  and the poll cycle. The platform, the language model and the file system are
  parameters (\<open>env\<close>) or part of the state (\<open>disk\<close>); every call to them is recorded in
  a trace. Exceptions are values, and each \<open>try\<close>/\<open>catch\<close> of the source is a case
  distinction on them. Console output and the pauses (\<open>sleep\<close>) have no effect on the
  state and are left out. Poll cycles do not overlap.
\<close>

section \<open>Data exchanged with the platform and the language model\<close>

text \<open>
  A property read from a parsed response is absent (\<open>undefined\<close>), \<open>null\<close> or a string.
  Strings are Isabelle strings: lists of code units below 256.
\<close>

datatype jsval = Undefined | Null | Str string

record tweet =
  tweet_id :: string
  tweet_text :: string
  in_reply_to_user_id :: jsval

text \<open>
  \<open>axios.get\<close> either throws or returns a response; \<open>HttpOk d\<close> carries what
  \<open>res.data.data\<close> evaluates to, \<open>None\<close> when the body has no \<open>data\<close> member.
\<close>

datatype 'a http = HttpError | HttpOk "'a option"

datatype error = AxiosError | TypeError | FsError | SyntaxError

datatype fs_entry = Unreadable | Contents string

text \<open>
  The external collaborators, as one cycle meets them. The timeline endpoint is asked with
  an account ID and the \<open>since_id\<close> parameter when the request carries one (the bootstrap
  and the poll ask the same endpoint); the completion endpoint is asked with the post text
  that the prompt template embeds, and answers \<open>None\<close> when the call or the access to
  \<open>choices[0].message.content\<close> throws; \<open>v2_tweet\<close> tells whether publishing a text
  succeeds, \<open>writable\<close> whether writing a file does.
\<close>

record env =
  users_by_username :: "string \<Rightarrow> string http"
  users_tweets :: "string \<Rightarrow> string option \<Rightarrow> tweet list http"
  chat_completions :: "string \<Rightarrow> string option"
  v2_tweet :: "string \<Rightarrow> bool"
  writable :: "string \<Rightarrow> bool"

datatype event =
    UserLookup string
  | TimelineFetch string "string option"
  | Completion string
  | TweetCall string bool
  | FileWrite string string

text \<open>
  The two process-wide objects, the files on disk and the calls made so far. An object is
  the association list of its own properties in insertion order (the engine's ordering of
  keys that look like array indices is not modelled). In the poll cycle \<open>map_of\<close> reads a
  property of these two objects and \<open>AList.update\<close> assigns one: there a handle is taken
  not to be the name of a property that the object inherits from \<open>Object.prototype\<close>
  without owning it.
\<close>

record state =
  lastSeen :: "(string \<times> string) list"
  userIds :: "(string \<times> string) list"
  disk :: "string \<Rightarrow> fs_entry option"
  trace :: "event list"

definition userHandles :: "string list" where
  "userHandles = [''AzoniNFT'']"

definition lastSeenFile :: string where
  "lastSeenFile = ''./lastSeen.json''"

definition userIdFile :: string where
  "userIdFile = ''./userIds.json''"

definition emit :: "event \<Rightarrow> state \<Rightarrow> state" where
  "emit e s = s\<lparr>trace := trace s @ [e]\<rparr>"

text \<open>Truthiness of a property that is absent or a string.\<close>

fun truthy :: "string option \<Rightarrow> bool" where
  "truthy None = False"
| "truthy (Some v) = (v \<noteq> [])"

text \<open>
  The assignment \<open>obj[k] = v\<close> of a string to a property of an ordinary object. For the
  key \<open>__proto__\<close> that the object does not own, the assignment reaches the setter
  inherited from \<open>Object.prototype\<close>, which ignores a string: no property is created.
\<close>

definition assign :: "string \<Rightarrow> string \<Rightarrow> (string \<times> string) list \<Rightarrow> (string \<times> string) list" where
  "assign k v obj =
     (if k = ''__proto__'' \<and> map_of obj k = None then obj else AList.update k v obj)"

section \<open>The JSON texts of the cache files\<close>

text \<open>
  \<open>JSON.stringify(obj, null, 2)\<close> and \<open>JSON.parse\<close> on the values the cache files
  hold: an object whose members are strings. \<open>JSON_parse\<close> gives the object for the
  texts of such values (with four-digit escapes below 256) and \<open>SyntaxError\<close> for the
  texts that are not JSON. It answers \<open>SyntaxError\<close> for the remaining JSON texts too
  (\<open>null\<close>, numbers, arrays, members that are not strings), which the built-in parser
  turns into values that the mappings of the model have no place for; \<open>valid_json\<close>
  below recognises all JSON texts, and statements about texts that do not parse are
  about those it rejects. A file is the list of its characters; their coding in bytes
  is not modelled.
\<close>

definition dquote :: char where "dquote = CHR 0x22"
definition bslash :: char where "bslash = CHR 0x5C"
definition newline :: char where "newline = CHR 0x0A"

definition hex_digit :: "nat \<Rightarrow> char" where
  "hex_digit d = ''0123456789abcdef'' ! d"

definition quote_char :: "char \<Rightarrow> string" where
  "quote_char c =
     (if c = CHR 0x08 then [bslash, CHR ''b'']
      else if c = CHR 0x09 then [bslash, CHR ''t'']
      else if c = CHR 0x0A then [bslash, CHR ''n'']
      else if c = CHR 0x0C then [bslash, CHR ''f'']
      else if c = CHR 0x0D then [bslash, CHR ''r'']
      else if c = dquote then [bslash, dquote]
      else if c = bslash then [bslash, bslash]
      else if (of_char c :: nat) < 32
        then [bslash, CHR ''u'', CHR ''0'', CHR ''0'',
              hex_digit (of_char c div 16), hex_digit (of_char c mod 16)]
      else [c])"

definition QuoteJSONString :: "string \<Rightarrow> string" where
  "QuoteJSONString v = dquote # concat (map quote_char v) @ [dquote]"

fun serialize_members :: "(string \<times> string) list \<Rightarrow> string" where
  "serialize_members [] = []"
| "serialize_members ((k, v) # ms) =
     ''  '' @ QuoteJSONString k @ '': '' @ QuoteJSONString v @
     (if ms = [] then [] else '','' @ [newline] @ serialize_members ms)"

definition JSON_stringify :: "(string \<times> string) list \<Rightarrow> string" where
  "JSON_stringify obj =
     (if obj = [] then ''{}'' else ''{'' @ [newline] @ serialize_members obj @ [newline] @ ''}'')"

definition is_json_ws :: "char \<Rightarrow> bool" where
  "is_json_ws c = (c = CHR 0x09 \<or> c = CHR 0x0A \<or> c = CHR 0x0D \<or> c = CHR 0x20)"

definition skip_ws :: "string \<Rightarrow> string" where
  "skip_ws cs = dropWhile is_json_ws cs"

definition hex_val :: "char \<Rightarrow> nat option" where
  "hex_val c =
     (let n = (of_char c :: nat)
      in if 48 \<le> n \<and> n \<le> 57 then Some (n - 48)
         else if 97 \<le> n \<and> n \<le> 102 then Some (n - 87)
         else if 65 \<le> n \<and> n \<le> 70 then Some (n - 55)
         else None)"

definition hex4 :: "char \<Rightarrow> char \<Rightarrow> char \<Rightarrow> char \<Rightarrow> nat option" where
  "hex4 a b c d =
     (case (hex_val a, hex_val b, hex_val c, hex_val d) of
        (Some w, Some x, Some y, Some z) \<Rightarrow> Some (((w * 16 + x) * 16 + y) * 16 + z)
      | _ \<Rightarrow> None)"

definition unescape :: "char \<Rightarrow> char option" where
  "unescape x =
     (if x = dquote then Some dquote
      else if x = bslash then Some bslash
      else if x = CHR ''/'' then Some CHR ''/''
      else if x = CHR ''b'' then Some (CHR 0x08)
      else if x = CHR ''f'' then Some (CHR 0x0C)
      else if x = CHR ''n'' then Some (CHR 0x0A)
      else if x = CHR ''r'' then Some (CHR 0x0D)
      else if x = CHR ''t'' then Some (CHR 0x09)
      else None)"

definition push_char :: "char \<Rightarrow> (string \<times> string) option \<Rightarrow> (string \<times> string) option" where
  "push_char c r = (case r of None \<Rightarrow> None | Some (v, rest) \<Rightarrow> Some (c # v, rest))"

fun parse_chars :: "string \<Rightarrow> (string \<times> string) option" where
  "parse_chars [] = None"
| "parse_chars (c # cs) =
     (if c = dquote then Some ([], cs)
      else if c = bslash then
        (case cs of
           [] \<Rightarrow> None
         | x # r \<Rightarrow>
             if x = CHR ''u'' then
               (case r of
                  h1 # h2 # h3 # h4 # r' \<Rightarrow>
                    (case hex4 h1 h2 h3 h4 of
                       Some n \<Rightarrow> if n < 256 then push_char (char_of n) (parse_chars r') else None
                     | None \<Rightarrow> None)
                | _ \<Rightarrow> None)
             else
               (case unescape x of
                  Some y \<Rightarrow> push_char y (parse_chars r)
                | None \<Rightarrow> None))
      else if (of_char c :: nat) < 32 then None
      else push_char c (parse_chars cs))"

definition parse_string :: "string \<Rightarrow> (string \<times> string) option" where
  "parse_string cs = (case cs of [] \<Rightarrow> None | c # r \<Rightarrow> if c = dquote then parse_chars r else None)"

lemma parse_chars_shorter: "parse_chars cs = Some (v, r) \<Longrightarrow> length r < length cs"
proof (induction cs arbitrary: v r rule: parse_chars.induct)
  case 1
  then show ?case by simp
next
  case (2 c cs)
  show ?case
  proof (cases "c = dquote")
    case True
    with 2 show ?thesis by simp
  next
    case ndq: False
    show ?thesis
    proof (cases "c = bslash")
      case False
      with ndq 2 have "length r < length cs"
        by (auto simp: push_char_def split: if_splits option.splits)
      then show ?thesis by simp
    next
      case True
      then obtain x t where cs: "cs = x # t"
        using 2(4) ndq by (cases cs) auto
      show ?thesis
      proof (cases "x = CHR ''u''")
        case False
        with True ndq cs 2 have "length r < length t"
          by (auto simp: push_char_def split: if_splits option.splits)
        then show ?thesis using cs by simp
      next
        case u: True
        then obtain h1 h2 h3 h4 t' where t: "t = h1 # h2 # h3 # h4 # t'"
          using 2(4) ndq True cs by (auto split: list.splits)
        with u True ndq cs 2 have "length r < length t'"
          by (auto simp: push_char_def split: if_splits option.splits)
        then show ?thesis using cs t by simp
      qed
    qed
  qed
qed

lemma parse_string_shorter: "parse_string cs = Some (v, r) \<Longrightarrow> length r < length cs"
  by (auto simp: parse_string_def split: list.splits if_splits dest: parse_chars_shorter)

lemma skip_ws_length: "length (skip_ws cs) \<le> length cs"
  by (simp add: skip_ws_def length_dropWhile_le)

function parse_members :: "string \<Rightarrow> ((string \<times> string) list \<times> string) option" where
  "parse_members cs =
     (case parse_string cs of
        None \<Rightarrow> None
      | Some (k, r1) \<Rightarrow>
          (case skip_ws r1 of
             [] \<Rightarrow> None
           | c1 # r2 \<Rightarrow>
               if c1 \<noteq> CHR '':'' then None
               else
                 (case parse_string (skip_ws r2) of
                    None \<Rightarrow> None
                  | Some (v, r3) \<Rightarrow>
                      (case skip_ws r3 of
                         [] \<Rightarrow> None
                       | c2 # r4 \<Rightarrow>
                           if c2 = CHR '','' then
                             (case parse_members (skip_ws r4) of
                                None \<Rightarrow> None
                              | Some (ms, r5) \<Rightarrow> Some ((k, v) # ms, r5))
                           else if c2 = CHR ''}'' then Some ([(k, v)], r4)
                           else None))))"
  by pat_completeness auto
termination
proof (relation "measure length", goal_cases)
  case 1
  show ?case by simp
next
  case (2 cs x2 k r1 c1 r2 x2a v r3 c2 r4)
  have a: "length r1 < length cs" using 2 by (auto dest: parse_string_shorter)
  have b: "length r2 < length r1"
    using skip_ws_length [of r1] 2 by (simp add: \<open>skip_ws r1 = c1 # r2\<close>)
  have c: "length r3 < length r2"
    using 2 skip_ws_length [of r2] by (auto dest!: parse_string_shorter)
  have d: "length r4 < length r3"
    using skip_ws_length [of r3] 2 by (simp add: \<open>skip_ws r3 = c2 # r4\<close>)
  show ?case using a b c d skip_ws_length [of r4] by simp
qed

definition JSON_parse :: "string \<Rightarrow> error + (string \<times> string) list" where
  "JSON_parse text =
     (case skip_ws text of
        [] \<Rightarrow> Inl SyntaxError
      | c # r \<Rightarrow>
          if c \<noteq> CHR ''{'' then Inl SyntaxError
          else
            (case skip_ws r of
               [] \<Rightarrow> Inl SyntaxError
             | c' # r' \<Rightarrow>
                 if c' = CHR ''}'' then (if skip_ws r' = [] then Inr [] else Inl SyntaxError)
                 else
                   (case parse_members (c' # r') of
                      None \<Rightarrow> Inl SyntaxError
                    | Some (ms, rest) \<Rightarrow>
                        if skip_ws rest = []
                        then Inr (fold (\<lambda>(k, v). AList.update k v) ms [])
                        else Inl SyntaxError)))"

declare parse_members.simps [simp del]

text \<open>
  The JSON texts: one value (an object, an array, a string, a number, \<open>true\<close>,
  \<open>false\<close> or \<open>null\<close>) between white space, read character by character with the
  stack of the objects and arrays that are open.
\<close>

datatype frame = InObject | InArray

datatype scan =
    BeforeValue
  | BeforeFirstElement
  | BeforeFirstKey
  | BeforeKey
  | AfterKey
  | AfterValue
  | InString bool
  | Escape bool
  | Hex bool nat
  | Literal string
  | NumMinus
  | NumZero
  | NumInt
  | NumDot
  | NumFrac
  | NumE
  | NumESign
  | NumExp

definition is_digit :: "char \<Rightarrow> bool" where
  "is_digit c = (48 \<le> (of_char c :: nat) \<and> (of_char c :: nat) \<le> 57)"

definition begin_value :: "frame list \<Rightarrow> char \<Rightarrow> (frame list \<times> scan) option" where
  "begin_value st c =
     (if c = CHR ''{'' then Some (InObject # st, BeforeFirstKey)
      else if c = CHR ''['' then Some (InArray # st, BeforeFirstElement)
      else if c = dquote then Some (st, InString False)
      else if c = CHR ''-'' then Some (st, NumMinus)
      else if c = CHR ''0'' then Some (st, NumZero)
      else if is_digit c then Some (st, NumInt)
      else if c = CHR ''t'' then Some (st, Literal ''rue'')
      else if c = CHR ''f'' then Some (st, Literal ''alse'')
      else if c = CHR ''n'' then Some (st, Literal ''ull'')
      else None)"

definition end_value :: "frame list \<Rightarrow> char \<Rightarrow> (frame list \<times> scan) option" where
  "end_value st c =
     (if is_json_ws c then Some (st, AfterValue)
      else if c = CHR '','' then
        (case st of
           [] \<Rightarrow> None
         | InObject # st' \<Rightarrow> Some (st, BeforeKey)
         | InArray # st' \<Rightarrow> Some (st, BeforeValue))
      else if c = CHR ''}'' then
        (case st of InObject # st' \<Rightarrow> Some (st', AfterValue) | _ \<Rightarrow> None)
      else if c = CHR '']'' then
        (case st of InArray # st' \<Rightarrow> Some (st', AfterValue) | _ \<Rightarrow> None)
      else None)"

fun step :: "frame list \<times> scan \<Rightarrow> char \<Rightarrow> (frame list \<times> scan) option" where
  "step (st, BeforeValue) c =
     (if is_json_ws c then Some (st, BeforeValue) else begin_value st c)"
| "step (st, BeforeFirstElement) c =
     (if is_json_ws c then Some (st, BeforeFirstElement)
      else if c = CHR '']'' then end_value st c
      else begin_value st c)"
| "step (st, BeforeFirstKey) c =
     (if is_json_ws c then Some (st, BeforeFirstKey)
      else if c = CHR ''}'' then end_value st c
      else if c = dquote then Some (st, InString True)
      else None)"
| "step (st, BeforeKey) c =
     (if is_json_ws c then Some (st, BeforeKey)
      else if c = dquote then Some (st, InString True)
      else None)"
| "step (st, AfterKey) c =
     (if is_json_ws c then Some (st, AfterKey)
      else if c = CHR '':'' then Some (st, BeforeValue)
      else None)"
| "step (st, AfterValue) c = end_value st c"
| "step (st, InString key) c =
     (if c = dquote then Some (st, if key then AfterKey else AfterValue)
      else if c = bslash then Some (st, Escape key)
      else if (of_char c :: nat) < 32 then None
      else Some (st, InString key))"
| "step (st, Escape key) c =
     (if c = CHR ''u'' then Some (st, Hex key 4)
      else if unescape c \<noteq> None then Some (st, InString key)
      else None)"
| "step (st, Hex key n) c =
     (if hex_val c = None then None
      else if n \<le> 1 then Some (st, InString key)
      else Some (st, Hex key (n - 1)))"
| "step (st, Literal r) c =
     (case r of
        [] \<Rightarrow> None
      | x # r' \<Rightarrow>
          if c \<noteq> x then None
          else if r' = [] then Some (st, AfterValue)
          else Some (st, Literal r'))"
| "step (st, NumMinus) c =
     (if c = CHR ''0'' then Some (st, NumZero)
      else if is_digit c then Some (st, NumInt)
      else None)"
| "step (st, NumZero) c =
     (if c = CHR ''.'' then Some (st, NumDot)
      else if c = CHR ''e'' \<or> c = CHR ''E'' then Some (st, NumE)
      else end_value st c)"
| "step (st, NumInt) c =
     (if is_digit c then Some (st, NumInt)
      else if c = CHR ''.'' then Some (st, NumDot)
      else if c = CHR ''e'' \<or> c = CHR ''E'' then Some (st, NumE)
      else end_value st c)"
| "step (st, NumDot) c = (if is_digit c then Some (st, NumFrac) else None)"
| "step (st, NumFrac) c =
     (if is_digit c then Some (st, NumFrac)
      else if c = CHR ''e'' \<or> c = CHR ''E'' then Some (st, NumE)
      else end_value st c)"
| "step (st, NumE) c =
     (if c = CHR ''+'' \<or> c = CHR ''-'' then Some (st, NumESign)
      else if is_digit c then Some (st, NumExp)
      else None)"
| "step (st, NumESign) c = (if is_digit c then Some (st, NumExp) else None)"
| "step (st, NumExp) c = (if is_digit c then Some (st, NumExp) else end_value st c)"

fun run :: "frame list \<times> scan \<Rightarrow> string \<Rightarrow> (frame list \<times> scan) option" where
  "run cfg [] = Some cfg"
| "run cfg (c # cs) = (case step cfg c of None \<Rightarrow> None | Some cfg' \<Rightarrow> run cfg' cs)"

definition complete :: "scan \<Rightarrow> bool" where
  "complete l = (l = AfterValue \<or> l = NumZero \<or> l = NumInt \<or> l = NumFrac \<or> l = NumExp)"

definition valid_json :: "string \<Rightarrow> bool" where
  "valid_json text =
     (case run ([], BeforeValue) text of
        None \<Rightarrow> False
      | Some (st, l) \<Rightarrow> st = [] \<and> complete l)"

section \<open>Commentary generation and publishing\<close>

definition is_white_space :: "char \<Rightarrow> bool" where
  "is_white_space c = (of_char c \<in> {9, 10, 11, 12, 13, 32, 160 :: nat})"

definition trim :: "string \<Rightarrow> string" where
  "trim v = rev (dropWhile is_white_space (rev (dropWhile is_white_space v)))"

definition generateQuote :: "env \<Rightarrow> string \<Rightarrow> state \<Rightarrow> string option \<times> state" where
  "generateQuote e tweetText s =
     (case chat_completions e tweetText of
        Some content \<Rightarrow> (Some (trim content), emit (Completion tweetText) s)
      | None \<Rightarrow> (None, emit (Completion tweetText) s))"

definition status_url :: "string \<Rightarrow> string" where
  "status_url tweetId = ''https://twitter.com/i/web/status/'' @ tweetId"

definition fullText :: "string \<Rightarrow> string \<Rightarrow> string" where
  "fullText tweetId quoteText = quoteText @ [CHR 0x0A, CHR 0x0A] @ status_url tweetId"

definition postQuote :: "env \<Rightarrow> string \<Rightarrow> string \<Rightarrow> state \<Rightarrow> state" where
  "postQuote e tweetId quoteText s =
     emit (TweetCall (fullText tweetId quoteText) (v2_tweet e (fullText tweetId quoteText))) s"

section \<open>Fetching posts newer than the watermark\<close>

text \<open>The \<open>since_id\<close> parameter of the request: present when the cached ID is truthy.\<close>

definition since_param :: "state \<Rightarrow> string \<Rightarrow> string option" where
  "since_param s username =
     (let sinceId = map_of (lastSeen s) username
      in if truthy sinceId then sinceId else None)"

definition getNewTweets :: "env \<Rightarrow> string \<Rightarrow> string \<Rightarrow> state \<Rightarrow> tweet list \<times> state" where
  "getNewTweets e userId username s =
     (let since = since_param s username;
          s1 = emit (TimelineFetch userId since) s
      in case users_tweets e userId since of
           HttpError \<Rightarrow> ([], s1)
         | HttpOk d \<Rightarrow>
             (let tweets = (case d of None \<Rightarrow> [] | Some ts \<Rightarrow> ts);
                  filteredTweets = filter (\<lambda>t. in_reply_to_user_id t = Null) tweets;
                  s2 = (case filteredTweets of
                          [] \<Rightarrow> s1
                        | t # _ \<Rightarrow> s1\<lparr>lastSeen := AList.update username (tweet_id t) (lastSeen s1)\<rparr>)
              in (rev filteredTweets, s2)))"

text \<open>The loop over the new posts of one handle.\<close>

fun process_tweets :: "env \<Rightarrow> string \<Rightarrow> tweet list \<Rightarrow> state \<Rightarrow> state" where
  "process_tweets e handle [] s = s"
| "process_tweets e handle (t # ts) s =
     (case generateQuote e (tweet_text t) s of
        (quote, s1) \<Rightarrow>
          (case quote of
             None \<Rightarrow> process_tweets e handle ts s1
           | Some q \<Rightarrow>
               if q \<noteq> []
               then process_tweets e handle ts
                      (postQuote e (tweet_id t) (q @ '' '' @ ''@'' @ handle) s1)
               else process_tweets e handle ts s1))"

section \<open>Loading the cache at startup\<close>

definition existsSync :: "state \<Rightarrow> string \<Rightarrow> bool" where
  "existsSync s path = (disk s path \<noteq> None)"

definition readFileSync :: "state \<Rightarrow> string \<Rightarrow> error + string" where
  "readFileSync s path =
     (case disk s path of
        Some (Contents content) \<Rightarrow> Inr content
      | _ \<Rightarrow> Inl FsError)"

text \<open>One \<open>if (fs.existsSync(f)) x = JSON.parse(fs.readFileSync(f))\<close>: the object to assign, if any.\<close>

definition load_file :: "state \<Rightarrow> string \<Rightarrow> error + (string \<times> string) list option" where
  "load_file s path =
     (if existsSync s path
      then (case readFileSync s path of
              Inl err \<Rightarrow> Inl err
            | Inr content \<Rightarrow>
                (case JSON_parse content of
                   Inl err \<Rightarrow> Inl err
                 | Inr obj \<Rightarrow> Inr (Some obj)))
      else Inr None)"

definition initial_state :: "(string \<Rightarrow> fs_entry option) \<Rightarrow> state" where
  "initial_state d = \<lparr>lastSeen = [], userIds = [], disk = d, trace = []\<rparr>"

text \<open>The \<open>try\<close> block at module level: the first exception ends it, assignments made stay.\<close>

definition load_cache :: "state \<Rightarrow> state" where
  "load_cache s =
     (case load_file s lastSeenFile of
        Inl err \<Rightarrow> s
      | Inr r1 \<Rightarrow>
          (let s1 = (case r1 of None \<Rightarrow> s | Some obj \<Rightarrow> s\<lparr>lastSeen := obj\<rparr>)
           in case load_file s1 userIdFile of
                Inl err \<Rightarrow> s1
              | Inr r2 \<Rightarrow> (case r2 of None \<Rightarrow> s1 | Some obj \<Rightarrow> s1\<lparr>userIds := obj\<rparr>)))"

section \<open>Writing files\<close>

definition writeFileSync :: "env \<Rightarrow> string \<Rightarrow> string \<Rightarrow> state \<Rightarrow> (error + unit) \<times> state" where
  "writeFileSync e path content s =
     (let s1 = emit (FileWrite path content) s
      in if writable e path then (Inr (), s1\<lparr>disk := (disk s1)(path \<mapsto> Contents content)\<rparr>)
         else (Inl FsError, s1))"

section \<open>Bootstrap\<close>

definition getUserId :: "env \<Rightarrow> string \<Rightarrow> state \<Rightarrow> (error + string) \<times> state" where
  "getUserId e username s =
     (let s1 = emit (UserLookup username) s
      in case users_by_username e username of
           HttpError \<Rightarrow> (Inl AxiosError, s1)
         | HttpOk None \<Rightarrow> (Inl TypeError, s1)
         | HttpOk (Some i) \<Rightarrow> (Inr i, s1))"

definition getLatestTweet :: "env \<Rightarrow> string \<Rightarrow> state \<Rightarrow> (error + string option) \<times> state" where
  "getLatestTweet e userId s =
     (let s1 = emit (TimelineFetch userId None) s
      in case users_tweets e userId None of
           HttpError \<Rightarrow> (Inl AxiosError, s1)
         | HttpOk d \<Rightarrow>
             (Inr (case d of Some (t # _) \<Rightarrow> Some (tweet_id t) | _ \<Rightarrow> None), s1))"

record boot =
  newLastSeen :: "(string \<times> string) list"
  newUserIds :: "(string \<times> string) list"

text \<open>
  The body of the bootstrap loop, with its \<open>try\<close>/\<open>catch\<close>. Both objects start as
  \<open>{}\<close> and get their properties by assignment.
\<close>

definition init_handle :: "env \<Rightarrow> string \<Rightarrow> boot \<times> state \<Rightarrow> boot \<times> state" where
  "init_handle e handle acc =
     (case acc of
        (b, s) \<Rightarrow>
          (case getUserId e handle s of
             (Inl err, s1) \<Rightarrow> (b, s1)
           | (Inr userId, s1) \<Rightarrow>
               (let b1 = b\<lparr>newUserIds := assign handle userId (newUserIds b)\<rparr>
                in case getLatestTweet e userId s1 of
                     (Inl err, s2) \<Rightarrow> (b1, s2)
                   | (Inr latestTweetId, s2) \<Rightarrow>
                       (case latestTweetId of
                          None \<Rightarrow> (b1, s2)
                        | Some i \<Rightarrow>
                            if i \<noteq> []
                            then (b1\<lparr>newLastSeen := assign handle i (newLastSeen b1)\<rparr>, s2)
                            else (b1, s2)))))"

definition init_handles :: "env \<Rightarrow> string list \<Rightarrow> state \<Rightarrow> boot \<times> state" where
  "init_handles e handles s =
     fold (init_handle e) handles (\<lparr>newLastSeen = [], newUserIds = []\<rparr>, s)"

text \<open>The final \<open>try\<close> block of the bootstrap: a failed first write skips the second.\<close>

definition save_cache :: "env \<Rightarrow> boot \<Rightarrow> state \<Rightarrow> state" where
  "save_cache e b s =
     (case writeFileSync e lastSeenFile (JSON_stringify (newLastSeen b)) s of
        (Inl err, s1) \<Rightarrow> s1
      | (Inr u, s1) \<Rightarrow> snd (writeFileSync e userIdFile (JSON_stringify (newUserIds b)) s1))"

text \<open>The handles are a parameter; the program runs with \<open>userHandles\<close>.\<close>

definition initializeLastSeen :: "env \<Rightarrow> string list \<Rightarrow> state \<Rightarrow> state" where
  "initializeLastSeen e handles s =
     (case init_handles e handles s of (b, s1) \<Rightarrow> save_cache e b s1)"

section \<open>The poll cycle\<close>

definition poll_handle :: "env \<Rightarrow> string \<Rightarrow> state \<Rightarrow> state" where
  "poll_handle e handle s =
     (case map_of (userIds s) handle of
        None \<Rightarrow> s
      | Some userId \<Rightarrow>
          if userId = [] then s
          else (case getNewTweets e userId handle s of
                  (newTweets, s1) \<Rightarrow> process_tweets e handle newTweets s1))"

definition poll :: "env \<Rightarrow> string list \<Rightarrow> state \<Rightarrow> state" where
  "poll e handles s =
     (let s1 = fold (poll_handle e) handles s
      in snd (writeFileSync e lastSeenFile (JSON_stringify (lastSeen s1)) s1))"

text \<open>
  \<open>startPolling\<close> runs one cycle after the other, for ever; the first cycles, each with the
  collaborators as it meets them:
\<close>

definition poll_cycles :: "env list \<Rightarrow> string list \<Rightarrow> state \<Rightarrow> state" where
  "poll_cycles es handles s = fold (\<lambda>e. poll e handles) es s"

section \<open>The order of post IDs and the platform's side of a timeline request\<close>

text \<open>Post IDs are decimal numerals; a post is newer than another when its number is larger.\<close>

definition id_num :: "string \<Rightarrow> nat" where
  "id_num v = foldl (\<lambda>n c. 10 * n + (of_char c - 48)) 0 v"

text \<open>A request that carries \<open>since_id\<close> is answered with posts newer than that ID only.\<close>

definition since_id_respected :: "env \<Rightarrow> bool" where
  "since_id_respected e =
     (\<forall>userId w ts t. users_tweets e userId (Some w) = HttpOk (Some ts) \<longrightarrow> t \<in> set ts \<longrightarrow>
        id_num w < id_num (tweet_id t))"

text \<open>A timeline is answered newest first.\<close>

definition newest_first :: "tweet list \<Rightarrow> bool" where
  "newest_first ts = sorted_wrt (\<lambda>a b. id_num (tweet_id b) < id_num (tweet_id a)) ts"

definition answers_newest_first :: "env \<Rightarrow> bool" where
  "answers_newest_first e =
     (\<forall>userId since ts. users_tweets e userId since = HttpOk (Some ts) \<longrightarrow> newest_first ts)"

section \<open>The posts that a cycle hands to the processing loop\<close>

text \<open>
  The qualifying posts observed for a handle: the batch that \<open>getNewTweets\<close> returns in
  a turn of the handle, and the batches of all its turns in one run of the loop over the
  handles.
\<close>

definition turn_posts :: "env \<Rightarrow> string \<Rightarrow> state \<Rightarrow> tweet list" where
  "turn_posts e handle s =
     (case map_of (userIds s) handle of
        None \<Rightarrow> []
      | Some userId \<Rightarrow> if userId = [] then [] else fst (getNewTweets e userId handle s))"

fun cycle_posts :: "env \<Rightarrow> string \<Rightarrow> string list \<Rightarrow> state \<Rightarrow> tweet list" where
  "cycle_posts e h [] s = []"
| "cycle_posts e h (handle # handles) s =
     (if handle = h then turn_posts e h s else []) @
     cycle_posts e h handles (poll_handle e handle s)"

section \<open>Basic facts about the steps\<close>

lemma emit_fields [simp]:
  "lastSeen (emit ev s) = lastSeen s"
  "userIds (emit ev s) = userIds s"
  "disk (emit ev s) = disk s"
  "trace (emit ev s) = trace s @ [ev]"
  by (simp_all add: emit_def)

lemma generateQuote_state [simp]:
  "snd (generateQuote e tweetText s) = emit (Completion tweetText) s"
  by (simp add: generateQuote_def split: option.splits)

lemma generateQuote_value:
  "fst (generateQuote e tweetText s) = map_option trim (chat_completions e tweetText)"
  by (simp add: generateQuote_def split: option.splits)

lemma postQuote_fields [simp]:
  "lastSeen (postQuote e i q s) = lastSeen s"
  "userIds (postQuote e i q s) = userIds s"
  "disk (postQuote e i q s) = disk s"
  by (simp_all add: postQuote_def)

lemma process_tweets_fields [simp]:
  "lastSeen (process_tweets e handle ts s) = lastSeen s"
  "userIds (process_tweets e handle ts s) = userIds s"
  "disk (process_tweets e handle ts s) = disk s"
  by (induction ts arbitrary: s; simp add: generateQuote_def split: option.splits)+

lemma getNewTweets_ok:
  assumes "users_tweets e userId (since_param s username) = HttpOk d"
  shows "getNewTweets e userId username s =
    (let kept = filter (\<lambda>t. in_reply_to_user_id t = Null) (case d of None \<Rightarrow> [] | Some ts \<Rightarrow> ts);
         s1 = emit (TimelineFetch userId (since_param s username)) s
     in (rev kept,
         case kept of [] \<Rightarrow> s1
         | t # _ \<Rightarrow> s1\<lparr>lastSeen := AList.update username (tweet_id t) (lastSeen s)\<rparr>))"
  using assms by (simp add: getNewTweets_def Let_def split: list.splits)

lemma process_tweets_writes [simp]:
  "filter (\<lambda>ev. case ev of FileWrite p c \<Rightarrow> True | _ \<Rightarrow> False) (trace (process_tweets e handle ts s))
   = filter (\<lambda>ev. case ev of FileWrite p c \<Rightarrow> True | _ \<Rightarrow> False) (trace s)"
  by (induction ts arbitrary: s) (simp_all add: generateQuote_def postQuote_def split: option.splits)

lemma getNewTweets_fields [simp]:
  "userIds (snd (getNewTweets e userId username s)) = userIds s"
  "disk (snd (getNewTweets e userId username s)) = disk s"
  "trace (snd (getNewTweets e userId username s)) = trace s @ [TimelineFetch userId (since_param s username)]"
  by (simp_all add: getNewTweets_def Let_def split: http.splits list.splits)

lemma getNewTweets_result:
  "getNewTweets e userId username s = (newTweets, s1) \<Longrightarrow>
   userIds s1 = userIds s \<and> disk s1 = disk s \<and>
   trace s1 = trace s @ [TimelineFetch userId (since_param s username)]"
  using getNewTweets_fields [of e userId username s] by simp

lemma poll_handle_fields [simp]:
  "userIds (poll_handle e handle s) = userIds s"
  "disk (poll_handle e handle s) = disk s"
  "filter (\<lambda>ev. case ev of FileWrite p c \<Rightarrow> True | _ \<Rightarrow> False) (trace (poll_handle e handle s))
   = filter (\<lambda>ev. case ev of FileWrite p c \<Rightarrow> True | _ \<Rightarrow> False) (trace s)"
  by (auto simp: poll_handle_def split: option.splits prod.splits dest!: getNewTweets_result)

lemma poll_loop_fields [simp]:
  "userIds (fold (poll_handle e) handles s) = userIds s"
  "disk (fold (poll_handle e) handles s) = disk s"
  "filter (\<lambda>ev. case ev of FileWrite p c \<Rightarrow> True | _ \<Rightarrow> False) (trace (fold (poll_handle e) handles s))
   = filter (\<lambda>ev. case ev of FileWrite p c \<Rightarrow> True | _ \<Rightarrow> False) (trace s)"
  by (induction handles arbitrary: s; simp)+

lemma cache_files_differ [simp]: "lastSeenFile \<noteq> userIdFile" "userIdFile \<noteq> lastSeenFile"
  by (simp_all add: lastSeenFile_def userIdFile_def)

lemma load_file_contents:
  "disk s path = Some (Contents c) \<Longrightarrow> JSON_parse c = Inr obj \<Longrightarrow> load_file s path = Inr (Some obj)"
  by (simp add: load_file_def existsSync_def readFileSync_def)

section \<open>Parsing what was serialised\<close>

lemma hex_val_hex_digit: "d < 16 \<Longrightarrow> hex_val (hex_digit d) = Some d"
proof -
  assume "d < 16"
  then have "d = 0 \<or> d = 1 \<or> d = 2 \<or> d = 3 \<or> d = 4 \<or> d = 5 \<or> d = 6 \<or> d = 7 \<or>
      d = 8 \<or> d = 9 \<or> d = 10 \<or> d = 11 \<or> d = 12 \<or> d = 13 \<or> d = 14 \<or> d = 15"
    by arith
  then show ?thesis
    by (elim disjE) (simp_all add: hex_val_def hex_digit_def)
qed

lemma hex_val_zero: "hex_val CHR ''0'' = Some 0"
  by (simp add: hex_val_def)

lemma hex4_control:
  assumes "(of_char c :: nat) < 32"
  shows "hex4 CHR ''0'' CHR ''0'' (hex_digit (of_char c div 16)) (hex_digit (of_char c mod 16))
         = Some (of_char c)"
proof -
  have "(of_char c :: nat) div 16 < 16" using assms by simp
  moreover have "(of_char c :: nat) mod 16 < 16" by simp
  ultimately show ?thesis
    by (simp add: hex4_def hex_val_zero hex_val_hex_digit)
qed

lemma parse_chars_quote_char:
  "parse_chars (quote_char c @ rest) = push_char c (parse_chars rest)"
proof (cases "c \<in> {CHR 0x08, CHR 0x09, CHR 0x0A, CHR 0x0C, CHR 0x0D, dquote, bslash}")
  case True
  then show ?thesis
    by (auto simp: quote_char_def unescape_def dquote_def bslash_def)
next
  case False
  show ?thesis
  proof (cases "(of_char c :: nat) < 32")
    case True
    have lt: "(of_char c :: nat) < 256" using True by simp
    show ?thesis
      using False True hex4_control [OF True] lt
      by (simp add: quote_char_def dquote_def bslash_def)
  next
    case ge: False
    with False show ?thesis
      by (simp add: quote_char_def)
  qed
qed

lemma parse_chars_quoted:
  "parse_chars (concat (map quote_char v) @ dquote # rest) = Some (v, rest)"
  by (induction v) (simp_all add: parse_chars_quote_char push_char_def)

lemma parse_string_Quote: "parse_string (QuoteJSONString v @ rest) = Some (v, rest)"
  using parse_chars_quoted [of v rest]
  by (simp add: parse_string_def QuoteJSONString_def)

lemma skip_ws_dq: "skip_ws (dquote # cs) = dquote # cs"
  by (simp add: skip_ws_def is_json_ws_def dquote_def)

lemma skip_ws_Quote: "skip_ws (QuoteJSONString v @ rest) = QuoteJSONString v @ rest"
  by (simp add: QuoteJSONString_def skip_ws_dq)

lemma skip_ws_punct:
  "skip_ws (CHR '':'' # cs) = CHR '':'' # cs"
  "skip_ws (CHR '','' # cs) = CHR '','' # cs"
  "skip_ws (CHR ''}'' # cs) = CHR ''}'' # cs"
  "skip_ws (CHR ''{'' # cs) = CHR ''{'' # cs"
  by (simp_all add: skip_ws_def is_json_ws_def)

lemma skip_ws_blank:
  "skip_ws (CHR '' '' # cs) = skip_ws cs"
  "skip_ws (newline # cs) = skip_ws cs"
  "skip_ws [] = []"
  by (simp_all add: skip_ws_def is_json_ws_def newline_def)

lemma parse_members_serialize:
  "ms \<noteq> [] \<Longrightarrow>
   parse_members (skip_ws (serialize_members ms @ newline # CHR ''}'' # rest)) = Some (ms, rest)"
proof (induction ms rule: serialize_members.induct)
  case 1
  then show ?case by simp
next
  case (2 k v ms)
  show ?case
  proof (cases "ms = []")
    case True
    show ?thesis
      by (subst parse_members.simps)
         (simp add: True skip_ws_blank skip_ws_punct skip_ws_Quote parse_string_Quote)
  next
    case False
    show ?thesis
      by (subst parse_members.simps)
         (simp add: False 2 skip_ws_blank skip_ws_punct skip_ws_Quote parse_string_Quote)
  qed
qed

lemma update_fresh: "k \<notin> fst ` set al \<Longrightarrow> AList.update k v al = al @ [(k, v)]"
  by (induction al) auto

lemma fold_update_distinct:
  "distinct (map fst (acc @ ms)) \<Longrightarrow> fold (\<lambda>(k, v). AList.update k v) ms acc = acc @ ms"
proof (induction ms arbitrary: acc)
  case Nil
  then show ?case by simp
next
  case (Cons p ms)
  obtain k v where p: "p = (k, v)" by (cases p)
  have fresh: "k \<notin> fst ` set acc" using Cons.prems p by auto
  have "distinct (map fst ((acc @ [(k, v)]) @ ms))" using Cons.prems p by simp
  from Cons.IH [OF this] show ?case
    by (simp add: p update_fresh [OF fresh])
qed

lemma parse_members_dq: "parse_members cs = Some r \<Longrightarrow> \<exists>t. cs = dquote # t"
  by (subst (asm) parse_members.simps)
     (auto simp: parse_string_def split: list.splits if_splits option.splits)

lemma JSON_roundtrip:
  "distinct (map fst obj) \<Longrightarrow> JSON_parse (JSON_stringify obj) = Inr obj"
proof (cases "obj = []")
  case True
  then show ?thesis
    by (simp add: JSON_parse_def JSON_stringify_def skip_ws_punct skip_ws_blank)
next
  case False
  assume d: "distinct (map fst obj)"
  have pm: "parse_members (skip_ws (serialize_members obj @ newline # CHR ''}'' # [])) = Some (obj, [])"
    using parse_members_serialize [OF False] .
  then obtain t where t: "skip_ws (serialize_members obj @ newline # CHR ''}'' # []) = dquote # t"
    using parse_members_dq by blast
  have "JSON_parse (JSON_stringify obj) = Inr (fold (\<lambda>(k, v). AList.update k v) obj [])"
    using False pm
    by (simp add: JSON_parse_def JSON_stringify_def skip_ws_punct skip_ws_blank t)
       (simp add: dquote_def)
  then show ?thesis using fold_update_distinct [of "[]" obj] d by simp
qed

section \<open>Texts that parse are JSON texts\<close>

lemma run_skip_ws:
  assumes "\<And>c. is_json_ws c \<Longrightarrow> step (st, l) c = Some (st, l)"
  shows "run (st, l) cs = run (st, l) (skip_ws cs)"
  by (induction cs) (simp_all add: skip_ws_def assms)

lemma run_ws_states:
  "run (st, BeforeValue) cs = run (st, BeforeValue) (skip_ws cs)"
  "run (st, BeforeFirstKey) cs = run (st, BeforeFirstKey) (skip_ws cs)"
  "run (st, BeforeKey) cs = run (st, BeforeKey) (skip_ws cs)"
  "run (st, AfterKey) cs = run (st, AfterKey) (skip_ws cs)"
  "run (st, AfterValue) cs = run (st, AfterValue) (skip_ws cs)"
  by (rule run_skip_ws, simp add: end_value_def)+

lemma hex4_digits:
  assumes "hex4 a b c d = Some n"
  obtains w x y z where "hex_val a = Some w" "hex_val b = Some x" "hex_val c = Some y"
    "hex_val d = Some z"
  using assms by (auto simp: hex4_def split: option.splits)

lemma run_chars:
  "parse_chars cs = Some (v, rest) \<Longrightarrow>
   run (st, InString key) cs = run (st, if key then AfterKey else AfterValue) rest"
proof (induction cs arbitrary: v rule: parse_chars.induct)
  case 1
  then show ?case by simp
next
  case (2 c cs)
  show ?case
  proof (cases "c = dquote")
    case True
    with 2(4) show ?thesis by simp
  next
    case ndq: False
    show ?thesis
    proof (cases "c = bslash")
      case False
      with ndq 2(4) obtain v' where "parse_chars cs = Some (v', rest)" "\<not> (of_char c :: nat) < 32"
        by (auto simp: push_char_def split: if_splits option.splits)
      with 2(3) [OF ndq False] ndq False show ?thesis by simp
    next
      case True
      then obtain x t where cs: "cs = x # t"
        using 2(4) ndq by (cases cs) auto
      show ?thesis
      proof (cases "x = CHR ''u''")
        case False
        with True ndq cs 2(4) obtain y v' where y: "unescape x = Some y"
          "parse_chars t = Some (v', rest)"
          by (auto simp: push_char_def split: if_splits option.splits)
        have "run (st, InString key) t = run (st, if key then AfterKey else AfterValue) rest"
          by (rule 2(2) [OF ndq True cs False y])
        then show ?thesis using True ndq cs False y(1) by simp
      next
        case u: True
        then obtain h1 h2 h3 h4 t' where t: "t = h1 # h2 # h3 # h4 # t'"
          using 2(4) ndq True cs by (auto split: list.splits)
        with u True ndq cs 2(4) obtain n v' where n: "hex4 h1 h2 h3 h4 = Some n" "n < 256"
          "parse_chars t' = Some (v', rest)"
          by (auto simp: push_char_def split: if_splits option.splits)
        have "run (st, InString key) t' = run (st, if key then AfterKey else AfterValue) rest"
          by (rule 2(1) [OF ndq True cs u t refl refl refl n])
        moreover obtain w1 w2 w3 w4 where "hex_val h1 = Some w1" "hex_val h2 = Some w2"
          "hex_val h3 = Some w3" "hex_val h4 = Some w4"
          using n(1) by (rule hex4_digits)
        ultimately show ?thesis
          using True ndq cs u t by simp
      qed
    qed
  qed
qed


lemma parse_string_cases:
  assumes "parse_string cs = Some (v, rest)"
  obtains r where "cs = dquote # r" "parse_chars r = Some (v, rest)"
  using assms by (auto simp: parse_string_def split: list.splits if_splits)

lemma run_members:
  "parse_members cs = Some (ms, rest) \<Longrightarrow>
   run (InObject # st, BeforeKey) cs = run (st, AfterValue) rest"
proof (induction cs arbitrary: ms rule: parse_members.induct)
  case (1 cs)
  from "1.prems" obtain k r1 where k: "parse_string cs = Some (k, r1)"
    by (subst (asm) parse_members.simps) (auto split: option.splits)
  from "1.prems" k obtain c1 r2 where c1: "skip_ws r1 = c1 # r2" "c1 = CHR '':''"
    by (subst (asm) parse_members.simps) (auto split: list.splits if_splits)
  from "1.prems" k c1 obtain v r3 where v: "parse_string (skip_ws r2) = Some (v, r3)"
    by (subst (asm) parse_members.simps) (auto split: option.splits)
  from "1.prems" k c1 v obtain c2 r4 where c2: "skip_ws r3 = c2 # r4"
    by (subst (asm) parse_members.simps) (auto split: list.splits)
  from k obtain kr where kr: "cs = dquote # kr" "parse_chars kr = Some (k, r1)"
    by (rule parse_string_cases)
  from v obtain vr where vr: "skip_ws r2 = dquote # vr" "parse_chars vr = Some (v, r3)"
    by (rule parse_string_cases)
  have "run (InObject # st, BeforeKey) cs = run (InObject # st, InString True) kr"
    by (simp add: kr(1) is_json_ws_def dquote_def)
  also have "\<dots> = run (InObject # st, AfterKey) r1"
    using run_chars [OF kr(2), of "InObject # st" True] by simp
  also have "\<dots> = run (InObject # st, BeforeValue) r2"
    by (subst run_ws_states(4)) (simp add: c1 is_json_ws_def)
  also have "\<dots> = run (InObject # st, InString False) vr"
    by (subst run_ws_states(1)) (simp add: vr(1) is_json_ws_def begin_value_def dquote_def)
  also have "\<dots> = run (InObject # st, AfterValue) r3"
    using run_chars [OF vr(2), of "InObject # st" False] by simp
  also have "\<dots> = run (InObject # st, AfterValue) (c2 # r4)"
    by (subst run_ws_states(5)) (simp add: c2)
  finally have head: "run (InObject # st, BeforeKey) cs = run (InObject # st, AfterValue) (c2 # r4)" .
  show ?case
  proof (cases "c2 = CHR '',''")
    case True
    from "1.prems" k c1 v c2 True obtain ms' where ms': "parse_members (skip_ws r4) = Some (ms', rest)"
      by (subst (asm) parse_members.simps) (auto split: option.splits)
    have "run (InObject # st, BeforeKey) (skip_ws r4) = run (st, AfterValue) rest"
      by (rule "1.IH" [OF k refl c1(1) _ v refl c2 True ms']) (simp add: c1(2))
    then have "run (InObject # st, BeforeKey) r4 = run (st, AfterValue) rest"
      by (subst run_ws_states(3))
    then show ?thesis
      unfolding head using True by (simp add: end_value_def is_json_ws_def)
  next
    case False
    from "1.prems" k c1 v c2 False have "c2 = CHR ''}''" "rest = r4"
      by (subst (asm) parse_members.simps, auto split: if_splits)+
    then show ?thesis
      unfolding head by (simp add: end_value_def is_json_ws_def)
  qed
qed

lemma parsed_text_is_json: "JSON_parse text = Inr obj \<Longrightarrow> valid_json text"
proof -
  assume p: "JSON_parse text = Inr obj"
  then obtain r where r: "skip_ws text = CHR ''{'' # r"
    by (auto simp: JSON_parse_def split: list.splits if_splits)
  from p r obtain c' r' where c': "skip_ws r = c' # r'"
    by (auto simp: JSON_parse_def split: list.splits)
  have "run ([], BeforeValue) text = run ([], BeforeValue) (CHR ''{'' # r)"
    by (subst run_ws_states(1)) (simp only: r)
  also have "\<dots> = run ([InObject], BeforeFirstKey) r"
    by (simp add: is_json_ws_def begin_value_def dquote_def)
  also have "\<dots> = run ([InObject], BeforeFirstKey) (c' # r')"
    by (subst run_ws_states(2)) (simp only: c')
  finally have start: "run ([], BeforeValue) text = run ([InObject], BeforeFirstKey) (c' # r')" .
  have "run ([], BeforeValue) text = Some ([], AfterValue)"
  proof (cases "c' = CHR ''}''")
    case True
    with p r c' have "skip_ws r' = []"
      by (auto simp: JSON_parse_def split: if_splits)
    then have "run ([], AfterValue) r' = Some ([], AfterValue)"
      by (subst run_ws_states(5)) simp
    then show ?thesis
      unfolding start using True by (simp add: end_value_def is_json_ws_def)
  next
    case False
    with p r c' obtain ms rest where ms: "parse_members (c' # r') = Some (ms, rest)"
      "skip_ws rest = []"
      by (auto simp: JSON_parse_def split: if_splits option.splits)
    obtain t where t: "c' # r' = dquote # t"
      using parse_members_dq [OF ms(1)] by blast
    have "run ([InObject], BeforeFirstKey) (c' # r') = run ([InObject], BeforeKey) (c' # r')"
      unfolding t by (simp add: is_json_ws_def dquote_def)
    also have "\<dots> = run ([], AfterValue) rest"
      by (rule run_members [OF ms(1)])
    also have "\<dots> = Some ([], AfterValue)"
      by (subst run_ws_states(5)) (simp add: ms(2))
    finally show ?thesis unfolding start .
  qed
  then show ?thesis by (simp add: valid_json_def complete_def)
qed

section \<open>Failed commentary generation\<close>

text \<open>
  Claim C5. When the completion call fails, or its trimmed answer is empty, the post leaves
  one completion request in the trace and nothing else: no publish call is made for it,
  and the loop goes on with the remaining posts.
\<close>

theorem failed_generation_skips_publish:
  assumes "chat_completions e (tweet_text t) = None \<or>
           (\<exists>content. chat_completions e (tweet_text t) = Some content \<and> trim content = [])"
  shows "process_tweets e handle (t # ts) s =
         process_tweets e handle ts (emit (Completion (tweet_text t)) s)"
  using assms by (auto simp: generateQuote_def)

theorem failed_generation_skips_publish_witness:
  "process_tweets
     \<lparr>users_by_username = (\<lambda>u. HttpError), users_tweets = (\<lambda>u w. HttpError),
      chat_completions = (\<lambda>x. if x = ''gm'' then Some ''  '' else Some ''bullish''),
      v2_tweet = (\<lambda>x. True), writable = (\<lambda>p. True)\<rparr>
     ''AzoniNFT''
     [\<lparr>tweet_id = ''7'', tweet_text = ''gm'', in_reply_to_user_id = Null\<rparr>,
      \<lparr>tweet_id = ''8'', tweet_text = ''gn'', in_reply_to_user_id = Null\<rparr>]
     (initial_state Map.empty)
   = \<lparr>lastSeen = [], userIds = [], disk = Map.empty,
      trace = [Completion ''gm'', Completion ''gn'',
               TweetCall (''bullish @AzoniNFT'' @ [CHR 0x0A, CHR 0x0A] @
                          ''https://twitter.com/i/web/status/8'') True]\<rparr>"
proof -
  let ?e = "\<lparr>users_by_username = (\<lambda>u. HttpError), users_tweets = (\<lambda>u w. HttpError),
      chat_completions = (\<lambda>x. if x = ''gm'' then Some ''  '' else Some ''bullish''),
      v2_tweet = (\<lambda>x. True), writable = (\<lambda>p. True)\<rparr>"
  let ?t = "\<lparr>tweet_id = ''7'', tweet_text = ''gm'', in_reply_to_user_id = Null\<rparr>"
  have h: "chat_completions ?e (tweet_text ?t) = None \<or>
           (\<exists>content. chat_completions ?e (tweet_text ?t) = Some content \<and> trim content = [])"
    by (simp add: trim_def is_white_space_def)
  show ?thesis
    using failed_generation_skips_publish [OF h, of "''AzoniNFT''" _ "initial_state Map.empty"]
    by (simp add: generateQuote_def postQuote_def fullText_def status_url_def emit_def
          initial_state_def trim_def is_white_space_def)
qed

section \<open>The published text\<close>

text \<open>
  Claim C9. For a post whose commentary was generated and is not empty, the text handed to
  the platform is the trimmed commentary, a space and the mention \<open>@handle\<close> of the
  polled account, an empty line, and the link \<open>https://twitter.com/i/web/status/ID\<close>
  to the original post; then the loop goes on with the remaining posts.
\<close>

theorem published_text:
  assumes "chat_completions e (tweet_text t) = Some content" and "trim content \<noteq> []"
  shows "process_tweets e handle (t # ts) s =
         process_tweets e handle ts
           (emit (TweetCall
                    (trim content @ '' @'' @ handle @ [CHR 0x0A, CHR 0x0A] @
                     ''https://twitter.com/i/web/status/'' @ tweet_id t)
                    (v2_tweet e
                       (trim content @ '' @'' @ handle @ [CHR 0x0A, CHR 0x0A] @
                        ''https://twitter.com/i/web/status/'' @ tweet_id t)))
              (emit (Completion (tweet_text t)) s))"
  using assms
  by (simp add: generateQuote_def postQuote_def fullText_def status_url_def)

theorem published_text_witness:
  "trace (process_tweets
     \<lparr>users_by_username = (\<lambda>u. HttpError), users_tweets = (\<lambda>u w. HttpError),
      chat_completions = (\<lambda>x. Some '' bullish  ''),
      v2_tweet = (\<lambda>x. True), writable = (\<lambda>p. True)\<rparr>
     ''AzoniNFT''
     [\<lparr>tweet_id = ''7'', tweet_text = ''gm'', in_reply_to_user_id = Null\<rparr>]
     (initial_state Map.empty))
   = [Completion ''gm'',
      TweetCall (''bullish @AzoniNFT'' @ [CHR 0x0A, CHR 0x0A] @
                 ''https://twitter.com/i/web/status/7'') True]"
proof -
  let ?e = "\<lparr>users_by_username = (\<lambda>u. HttpError), users_tweets = (\<lambda>u w. HttpError),
      chat_completions = (\<lambda>x. Some '' bullish  ''),
      v2_tweet = (\<lambda>x. True), writable = (\<lambda>p. True)\<rparr>"
  let ?t = "\<lparr>tweet_id = ''7'', tweet_text = ''gm'', in_reply_to_user_id = Null\<rparr>"
  have h1: "chat_completions ?e (tweet_text ?t) = Some '' bullish  ''" by simp
  have h2: "trim '' bullish  '' \<noteq> []" by (simp add: trim_def is_white_space_def)
  show ?thesis
    using published_text [OF h1 h2, of "''AzoniNFT''" "[]" "initial_state Map.empty"]
    by (simp add: initial_state_def trim_def is_white_space_def)
qed

section \<open>Order of processing and the watermark of a batch\<close>

text \<open>
  Claim C3. When the fetch for a handle with a cached account ID answers the posts
  \<open>[p3, p2, p1]\<close>, newest first, and none is filtered out, the watermark of the handle
  becomes the ID of \<open>p3\<close>, the processing loop runs on \<open>[p1, p2, p3]\<close>, and the
  completion requests of the handle's turn are those for \<open>p1\<close>, \<open>p2\<close>, \<open>p3\<close> in
  this order; when each of them yields a commentary, the calls after the fetch are:
  completion for \<open>p1\<close>, publish for \<open>p1\<close>, then the same for \<open>p2\<close>, then for
  \<open>p3\<close>.
\<close>

theorem batch_order:
  assumes "map_of (userIds s) handle = Some userId" and "userId \<noteq> []"
    and "users_tweets e userId (since_param s handle) = HttpOk (Some [p3, p2, p1])"
    and "in_reply_to_user_id p1 = Null" and "in_reply_to_user_id p2 = Null"
    and "in_reply_to_user_id p3 = Null"
  shows "map_of (lastSeen (poll_handle e handle s)) handle = Some (tweet_id p3) \<and>
         poll_handle e handle s =
           process_tweets e handle [p1, p2, p3]
             ((emit (TimelineFetch userId (since_param s handle)) s)
                \<lparr>lastSeen := AList.update handle (tweet_id p3) (lastSeen s)\<rparr>) \<and>
         filter (\<lambda>ev. case ev of Completion x \<Rightarrow> True | _ \<Rightarrow> False)
             (trace (poll_handle e handle s)) =
           filter (\<lambda>ev. case ev of Completion x \<Rightarrow> True | _ \<Rightarrow> False) (trace s) @
           [Completion (tweet_text p1), Completion (tweet_text p2), Completion (tweet_text p3)] \<and>
         (chat_completions e (tweet_text p1) = Some c1 \<and> trim c1 \<noteq> [] \<and>
          chat_completions e (tweet_text p2) = Some c2 \<and> trim c2 \<noteq> [] \<and>
          chat_completions e (tweet_text p3) = Some c3 \<and> trim c3 \<noteq> [] \<longrightarrow>
          trace (poll_handle e handle s) =
            trace s @
            [TimelineFetch userId (since_param s handle),
             Completion (tweet_text p1),
             TweetCall (fullText (tweet_id p1) (trim c1 @ '' @'' @ handle))
               (v2_tweet e (fullText (tweet_id p1) (trim c1 @ '' @'' @ handle))),
             Completion (tweet_text p2),
             TweetCall (fullText (tweet_id p2) (trim c2 @ '' @'' @ handle))
               (v2_tweet e (fullText (tweet_id p2) (trim c2 @ '' @'' @ handle))),
             Completion (tweet_text p3),
             TweetCall (fullText (tweet_id p3) (trim c3 @ '' @'' @ handle))
               (v2_tweet e (fullText (tweet_id p3) (trim c3 @ '' @'' @ handle)))])"
proof -
  have eq: "poll_handle e handle s =
           process_tweets e handle [p1, p2, p3]
             ((emit (TimelineFetch userId (since_param s handle)) s)
                \<lparr>lastSeen := AList.update handle (tweet_id p3) (lastSeen s)\<rparr>)"
    using assms by (simp add: poll_handle_def getNewTweets_ok)
  have ws: "map_of (lastSeen (poll_handle e handle s)) handle = Some (tweet_id p3)"
    unfolding eq by (simp del: process_tweets.simps add: update_conv')
  have tr: "filter (\<lambda>ev. case ev of Completion x \<Rightarrow> True | _ \<Rightarrow> False)
             (trace (poll_handle e handle s)) =
           filter (\<lambda>ev. case ev of Completion x \<Rightarrow> True | _ \<Rightarrow> False) (trace s) @
           [Completion (tweet_text p1), Completion (tweet_text p2), Completion (tweet_text p3)]"
    unfolding eq
    by (simp add: generateQuote_def postQuote_def split: option.splits)
  have pub: "(chat_completions e (tweet_text p1) = Some c1 \<and> trim c1 \<noteq> [] \<and>
      chat_completions e (tweet_text p2) = Some c2 \<and> trim c2 \<noteq> [] \<and>
      chat_completions e (tweet_text p3) = Some c3 \<and> trim c3 \<noteq> [] \<longrightarrow>
      trace (poll_handle e handle s) =
        trace s @
        [TimelineFetch userId (since_param s handle),
         Completion (tweet_text p1),
         TweetCall (fullText (tweet_id p1) (trim c1 @ '' @'' @ handle))
           (v2_tweet e (fullText (tweet_id p1) (trim c1 @ '' @'' @ handle))),
         Completion (tweet_text p2),
         TweetCall (fullText (tweet_id p2) (trim c2 @ '' @'' @ handle))
           (v2_tweet e (fullText (tweet_id p2) (trim c2 @ '' @'' @ handle))),
         Completion (tweet_text p3),
         TweetCall (fullText (tweet_id p3) (trim c3 @ '' @'' @ handle))
           (v2_tweet e (fullText (tweet_id p3) (trim c3 @ '' @'' @ handle)))])"
    unfolding eq by (simp add: generateQuote_def postQuote_def)
  show ?thesis using eq ws tr pub by blast
qed


theorem batch_order_witness:
  "map_of (lastSeen (poll_handle
      \<lparr>users_by_username = (\<lambda>u. HttpError),
       users_tweets = (\<lambda>u w. if u = ''42'' \<and> w = Some ''1000'' then HttpOk (Some
         [\<lparr>tweet_id = ''1003'', tweet_text = ''three'', in_reply_to_user_id = Null\<rparr>,
          \<lparr>tweet_id = ''1002'', tweet_text = ''two'', in_reply_to_user_id = Null\<rparr>,
          \<lparr>tweet_id = ''1001'', tweet_text = ''one'', in_reply_to_user_id = Null\<rparr>])
         else HttpError),
       chat_completions = (\<lambda>x. if x = ''two'' then None else Some ''ok''),
       v2_tweet = (\<lambda>x. True), writable = (\<lambda>p. True)\<rparr>
      ''AzoniNFT''
      \<lparr>lastSeen = [(''AzoniNFT'', ''1000'')], userIds = [(''AzoniNFT'', ''42'')],
       disk = Map.empty, trace = []\<rparr>)) ''AzoniNFT'' = Some ''1003'' \<and>
   trace (poll_handle
      \<lparr>users_by_username = (\<lambda>u. HttpError),
       users_tweets = (\<lambda>u w. if u = ''42'' \<and> w = Some ''1000'' then HttpOk (Some
         [\<lparr>tweet_id = ''1003'', tweet_text = ''three'', in_reply_to_user_id = Null\<rparr>,
          \<lparr>tweet_id = ''1002'', tweet_text = ''two'', in_reply_to_user_id = Null\<rparr>,
          \<lparr>tweet_id = ''1001'', tweet_text = ''one'', in_reply_to_user_id = Null\<rparr>])
         else HttpError),
       chat_completions = (\<lambda>x. if x = ''two'' then None else Some ''ok''),
       v2_tweet = (\<lambda>x. True), writable = (\<lambda>p. True)\<rparr>
      ''AzoniNFT''
      \<lparr>lastSeen = [(''AzoniNFT'', ''1000'')], userIds = [(''AzoniNFT'', ''42'')],
       disk = Map.empty, trace = []\<rparr>) =
     [TimelineFetch ''42'' (Some ''1000''),
      Completion ''one'',
      TweetCall (''ok @AzoniNFT'' @ [CHR 0x0A, CHR 0x0A] @
                 ''https://twitter.com/i/web/status/1001'') True,
      Completion ''two'',
      Completion ''three'',
      TweetCall (''ok @AzoniNFT'' @ [CHR 0x0A, CHR 0x0A] @
                 ''https://twitter.com/i/web/status/1003'') True]"
proof -
  let ?p3 = "\<lparr>tweet_id = ''1003'', tweet_text = ''three'', in_reply_to_user_id = Null\<rparr>"
  let ?p2 = "\<lparr>tweet_id = ''1002'', tweet_text = ''two'', in_reply_to_user_id = Null\<rparr>"
  let ?p1 = "\<lparr>tweet_id = ''1001'', tweet_text = ''one'', in_reply_to_user_id = Null\<rparr>"
  let ?e = "\<lparr>users_by_username = (\<lambda>u. HttpError),
       users_tweets = (\<lambda>u w. if u = ''42'' \<and> w = Some ''1000''
         then HttpOk (Some [?p3, ?p2, ?p1]) else HttpError),
       chat_completions = (\<lambda>x. if x = ''two'' then None else Some ''ok''),
       v2_tweet = (\<lambda>x. True), writable = (\<lambda>p. True)\<rparr>"
  let ?s = "\<lparr>lastSeen = [(''AzoniNFT'', ''1000'')], userIds = [(''AzoniNFT'', ''42'')],
       disk = Map.empty, trace = []\<rparr>"
  have h1: "map_of (userIds ?s) ''AzoniNFT'' = Some ''42''" by simp
  have h2: "''42'' \<noteq> []" by simp
  have h3: "users_tweets ?e ''42'' (since_param ?s ''AzoniNFT'') = HttpOk (Some [?p3, ?p2, ?p1])"
    by (simp add: since_param_def)
  have h4: "in_reply_to_user_id ?p1 = Null" "in_reply_to_user_id ?p2 = Null"
    "in_reply_to_user_id ?p3 = Null" by simp_all
  show ?thesis
    using batch_order [OF h1 h2 h3 h4]
    by (simp add: since_param_def generateQuote_def postQuote_def fullText_def status_url_def
        emit_def trim_def is_white_space_def)
qed

section \<open>The reply filter\<close>

text \<open>Every post that reaches the processing loop has \<open>in_reply_to_user_id\<close> equal to \<open>null\<close>.\<close>

lemma getNewTweets_kept:
  "t \<in> set (fst (getNewTweets e userId username s)) \<Longrightarrow> in_reply_to_user_id t = Null"
  by (auto simp: getNewTweets_def Let_def split: http.splits)

text \<open>
  Claim C1. A post is forwarded to commentary generation if and only if it has no
  reply target. The filter keeps a post only when its \<open>in_reply_to_user_id\<close> is
  \<open>null\<close>; a post that has no such member at all has no reply target either, and is
  dropped: the cycle below fetches one such post and makes no completion request and no
  publish call.
\<close>

theorem original_post_without_field_is_dropped:
  "trace (poll
      \<lparr>users_by_username = (\<lambda>u. HttpError),
       users_tweets = (\<lambda>u w. HttpOk (Some
         [\<lparr>tweet_id = ''1001'', tweet_text = ''gm'', in_reply_to_user_id = Undefined\<rparr>])),
       chat_completions = (\<lambda>x. Some ''ok''),
       v2_tweet = (\<lambda>x. True), writable = (\<lambda>p. True)\<rparr>
      userHandles
      \<lparr>lastSeen = [(''AzoniNFT'', ''1000'')], userIds = [(''AzoniNFT'', ''42'')],
       disk = Map.empty, trace = []\<rparr>) =
     [TimelineFetch ''42'' (Some ''1000''),
      FileWrite lastSeenFile (JSON_stringify [(''AzoniNFT'', ''1000'')])]"
  by (simp add: poll_def userHandles_def poll_handle_def getNewTweets_def since_param_def
      writeFileSync_def emit_def)

section \<open>The cache files\<close>

text \<open>
  Claim C7. For all mappings of handles to watermarks and to account IDs (objects: no key
  twice), writing them as the bootstrap does, when both writes succeed, and loading the
  cache from the resulting disk gives the same two mappings.
\<close>

theorem cache_round_trip:
  assumes "distinct (map fst (newLastSeen b))" and "distinct (map fst (newUserIds b))"
    and "writable e lastSeenFile" and "writable e userIdFile"
  shows "lastSeen (load_cache (initial_state (disk (save_cache e b s)))) = newLastSeen b \<and>
         userIds (load_cache (initial_state (disk (save_cache e b s)))) = newUserIds b"
proof -
  let ?d = "disk (save_cache e b s)"
  have f1: "?d lastSeenFile = Some (Contents (JSON_stringify (newLastSeen b)))"
    using assms(3,4) by (simp add: save_cache_def writeFileSync_def)
  have f2: "?d userIdFile = Some (Contents (JSON_stringify (newUserIds b)))"
    using assms(3,4) by (simp add: save_cache_def writeFileSync_def)
  have l1: "load_file (initial_state ?d) lastSeenFile = Inr (Some (newLastSeen b))"
    by (rule load_file_contents [OF _ JSON_roundtrip [OF assms(1)]])
       (simp add: initial_state_def f1)
  have l2: "\<And>x. load_file ((initial_state ?d)\<lparr>lastSeen := x\<rparr>) userIdFile = Inr (Some (newUserIds b))"
    by (rule load_file_contents [OF _ JSON_roundtrip [OF assms(2)]])
       (simp add: initial_state_def f2)
  show ?thesis
    by (simp add: load_cache_def l1 l2)
qed

theorem cache_round_trip_witness:
  "lastSeen (load_cache (initial_state (disk (save_cache
      \<lparr>users_by_username = (\<lambda>u. HttpError), users_tweets = (\<lambda>u w. HttpError),
       chat_completions = (\<lambda>x. None), v2_tweet = (\<lambda>x. True), writable = (\<lambda>p. True)\<rparr>
      \<lparr>newLastSeen = [(''AzoniNFT'', ''1001''), (''a_b'', ''7'')],
       newUserIds = [(''AzoniNFT'', ''42'')]\<rparr>
      (initial_state Map.empty))))) = [(''AzoniNFT'', ''1001''), (''a_b'', ''7'')] \<and>
   userIds (load_cache (initial_state (disk (save_cache
      \<lparr>users_by_username = (\<lambda>u. HttpError), users_tweets = (\<lambda>u w. HttpError),
       chat_completions = (\<lambda>x. None), v2_tweet = (\<lambda>x. True), writable = (\<lambda>p. True)\<rparr>
      \<lparr>newLastSeen = [(''AzoniNFT'', ''1001''), (''a_b'', ''7'')],
       newUserIds = [(''AzoniNFT'', ''42'')]\<rparr>
      (initial_state Map.empty))))) = [(''AzoniNFT'', ''42'')]"
proof -
  let ?e = "\<lparr>users_by_username = (\<lambda>u. HttpError), users_tweets = (\<lambda>u w. HttpError),
       chat_completions = (\<lambda>x. None), v2_tweet = (\<lambda>x. True), writable = (\<lambda>p. True)\<rparr>"
  let ?b = "\<lparr>newLastSeen = [(''AzoniNFT'', ''1001''), (''a_b'', ''7'')],
       newUserIds = [(''AzoniNFT'', ''42'')]\<rparr>"
  have h1: "distinct (map fst (newLastSeen ?b))" by simp
  have h2: "distinct (map fst (newUserIds ?b))" by simp
  have h3: "writable ?e lastSeenFile" "writable ?e userIdFile" by simp_all
  show ?thesis
    using cache_round_trip [OF h1 h2 h3, of "initial_state Map.empty"] by simp
qed

lemma not_json_throws: "\<not> valid_json c \<Longrightarrow> \<exists>err. JSON_parse c = Inl err"
  using parsed_text_is_json [of c] by (cases "JSON_parse c") auto

lemma load_file_cases:
  "load_file (s\<lparr>lastSeen := x\<rparr>) path = load_file s path"
  "disk s path = None \<Longrightarrow> load_file s path = Inr None"
  "disk s path = Some Unreadable \<Longrightarrow> \<exists>err. load_file s path = Inl err"
  "disk s path = Some (Contents c) \<Longrightarrow> \<not> valid_json c \<Longrightarrow> \<exists>err. load_file s path = Inl err"
  "disk s path = Some (Contents c) \<Longrightarrow> JSON_parse c = Inr m \<Longrightarrow> load_file s path = Inr (Some m)"
  by (auto simp: load_file_def existsSync_def readFileSync_def dest!: not_json_throws)

text \<open>
  Claim C8 says that when either cache file is missing or fails to read or parse, the
  program proceeds with empty mappings. With the watermark file as the program wrote it
  and a file of account IDs that cannot be read, the watermarks are loaded: only the
  mapping of account IDs is empty.
\<close>

theorem watermarks_loaded_beside_unreadable_userIds:
  "lastSeen (load_cache (initial_state
     (Map.empty(lastSeenFile \<mapsto> Contents (JSON_stringify [(''AzoniNFT'', ''1000'')]),
                userIdFile \<mapsto> Unreadable)))) = [(''AzoniNFT'', ''1000'')] \<and>
   userIds (load_cache (initial_state
     (Map.empty(lastSeenFile \<mapsto> Contents (JSON_stringify [(''AzoniNFT'', ''1000'')]),
                userIdFile \<mapsto> Unreadable)))) = []"
proof -
  have p: "JSON_parse (JSON_stringify [(''AzoniNFT'', ''1000'')]) = Inr [(''AzoniNFT'', ''1000'')]"
    by (rule JSON_roundtrip) simp
  show ?thesis
    by (simp add: load_cache_def load_file_def existsSync_def readFileSync_def
        initial_state_def p)
qed

text \<open>
  Claim C8, amended. Loading the cache never fails, and a cache file that is missing,
  cannot be read or is not a JSON text leaves its own mapping empty. A watermark file
  that cannot be read or is not a JSON text ends the block, so the account IDs stay
  empty as well. Otherwise the other mapping is the one its file holds: the watermarks
  whenever their file holds a mapping, the account IDs when their file holds a mapping
  and the watermark file is missing or holds a mapping.
\<close>

theorem load_cache_per_file:
  "(d lastSeenFile = None \<or> d lastSeenFile = Some Unreadable \<or>
      (\<exists>c. d lastSeenFile = Some (Contents c) \<and> \<not> valid_json c)
    \<longrightarrow> lastSeen (load_cache (initial_state d)) = []) \<and>
   (d userIdFile = None \<or> d userIdFile = Some Unreadable \<or>
      (\<exists>c. d userIdFile = Some (Contents c) \<and> \<not> valid_json c)
    \<longrightarrow> userIds (load_cache (initial_state d)) = []) \<and>
   (d lastSeenFile = Some Unreadable \<or>
      (\<exists>c. d lastSeenFile = Some (Contents c) \<and> \<not> valid_json c)
    \<longrightarrow> userIds (load_cache (initial_state d)) = []) \<and>
   (\<forall>c m. d lastSeenFile = Some (Contents c) \<and> JSON_parse c = Inr m
    \<longrightarrow> lastSeen (load_cache (initial_state d)) = m) \<and>
   (\<forall>c m. d userIdFile = Some (Contents c) \<and> JSON_parse c = Inr m \<and>
      (d lastSeenFile = None \<or>
       (\<exists>c1 m1. d lastSeenFile = Some (Contents c1) \<and> JSON_parse c1 = Inr m1))
    \<longrightarrow> userIds (load_cache (initial_state d)) = m)"
proof -
  let ?s = "initial_state d"
  have dk: "disk ?s = d" "lastSeen ?s = []" "userIds ?s = []"
    by (simp_all add: initial_state_def)
  have thrown: "load_cache ?s = ?s" if "load_file ?s lastSeenFile = Inl err" for err
    using that by (simp add: load_cache_def)
  have a: "lastSeen (load_cache ?s) = []"
    if "d lastSeenFile = None \<or> d lastSeenFile = Some Unreadable \<or>
      (\<exists>c. d lastSeenFile = Some (Contents c) \<and> \<not> valid_json c)"
  proof -
    from that consider "load_file ?s lastSeenFile = Inr None"
      | err where "load_file ?s lastSeenFile = Inl err"
      using load_file_cases(2,3,4) [of ?s lastSeenFile] dk(1) by metis
    then show ?thesis
      by cases (auto simp: load_cache_def dk Let_def split: sum.splits option.splits)
  qed
  have b: "userIds (load_cache ?s) = []"
    if "d userIdFile = None \<or> d userIdFile = Some Unreadable \<or>
      (\<exists>c. d userIdFile = Some (Contents c) \<and> \<not> valid_json c)"
  proof -
    from that consider "load_file ?s userIdFile = Inr None"
      | err where "load_file ?s userIdFile = Inl err"
      using load_file_cases(2,3,4) [of ?s userIdFile] dk(1) by metis
    then show ?thesis
      by cases
         (auto simp: load_cache_def dk load_file_cases(1) Let_def split: sum.splits option.splits)
  qed
  have c: "userIds (load_cache ?s) = []"
    if "d lastSeenFile = Some Unreadable \<or>
      (\<exists>c. d lastSeenFile = Some (Contents c) \<and> \<not> valid_json c)"
  proof -
    from that obtain err where "load_file ?s lastSeenFile = Inl err"
      using load_file_cases(3,4) [of ?s lastSeenFile] dk(1) by metis
    then show ?thesis by (simp add: thrown dk)
  qed
  have d1: "lastSeen (load_cache ?s) = m"
    if "d lastSeenFile = Some (Contents c)" "JSON_parse c = Inr m" for c m
  proof -
    have "load_file ?s lastSeenFile = Inr (Some m)"
      using load_file_cases(5) [of ?s lastSeenFile c m] that dk(1) by simp
    then show ?thesis
      by (auto simp: load_cache_def Let_def split: sum.splits option.splits)
  qed
  have e: "userIds (load_cache ?s) = m"
    if "d userIdFile = Some (Contents c)" "JSON_parse c = Inr m"
      "d lastSeenFile = None \<or>
       (\<exists>c1 m1. d lastSeenFile = Some (Contents c1) \<and> JSON_parse c1 = Inr m1)" for c m
  proof -
    have u: "load_file ?s userIdFile = Inr (Some m)"
      using load_file_cases(5) [of ?s userIdFile c m] that(1,2) dk(1) by simp
    from that(3) consider "load_file ?s lastSeenFile = Inr None"
      | m1 where "load_file ?s lastSeenFile = Inr (Some m1)"
      using load_file_cases(2,5) [of ?s lastSeenFile] dk(1) by metis
    then show ?thesis
      by cases (simp_all add: load_cache_def Let_def load_file_cases(1) u)
  qed
  show ?thesis using a b c d1 e by blast
qed

theorem load_cache_per_file_witness:
  "\<not> valid_json ''{broken'' \<and>
   lastSeen (load_cache (initial_state
     (Map.empty(lastSeenFile \<mapsto> Contents ''{broken'', userIdFile \<mapsto> Contents ''{}'')))) = [] \<and>
   userIds (load_cache (initial_state
     (Map.empty(lastSeenFile \<mapsto> Contents ''{broken'', userIdFile \<mapsto> Contents ''{}'')))) = []"
proof -
  have p: "\<not> valid_json ''{broken''"
    by (simp add: valid_json_def is_json_ws_def begin_value_def dquote_def)
  show ?thesis
    using p load_cache_per_file
      [of "Map.empty(lastSeenFile \<mapsto> Contents ''{broken'', userIdFile \<mapsto> Contents ''{}'')"]
    by simp
qed

section \<open>What a poll cycle saves\<close>

text \<open>
  Claim C4 says that after every poll cycle both mappings are saved to disk. A cycle that
  starts without cache files writes \<open>lastSeen.json\<close> and nothing else: the file of
  account IDs does not exist afterwards.
\<close>

theorem poll_leaves_userIds_file_unwritten:
  "disk (poll
      \<lparr>users_by_username = (\<lambda>u. HttpError), users_tweets = (\<lambda>u w. HttpError),
       chat_completions = (\<lambda>x. None), v2_tweet = (\<lambda>x. True), writable = (\<lambda>p. True)\<rparr>
      userHandles (load_cache (initial_state Map.empty))) userIdFile = None \<and>
   disk (poll
      \<lparr>users_by_username = (\<lambda>u. HttpError), users_tweets = (\<lambda>u w. HttpError),
       chat_completions = (\<lambda>x. None), v2_tweet = (\<lambda>x. True), writable = (\<lambda>p. True)\<rparr>
      userHandles (load_cache (initial_state Map.empty))) lastSeenFile = Some (Contents ''{}'') \<and>
   trace (poll
      \<lparr>users_by_username = (\<lambda>u. HttpError), users_tweets = (\<lambda>u w. HttpError),
       chat_completions = (\<lambda>x. None), v2_tweet = (\<lambda>x. True), writable = (\<lambda>p. True)\<rparr>
      userHandles (load_cache (initial_state Map.empty))) = [FileWrite lastSeenFile ''{}'']"
  by (simp add: poll_def userHandles_def poll_handle_def load_cache_def load_file_def
      existsSync_def initial_state_def writeFileSync_def emit_def JSON_stringify_def)

text \<open>
  Claim C4, amended. A poll cycle makes exactly one write, after the loop over the handles:
  the watermark mapping to \<open>lastSeen.json\<close>, which holds it when the write succeeds.
  The file of account IDs is left as it was, and so is the mapping of account IDs.
\<close>

theorem poll_saves_watermarks_only:
  "trace (poll e handles s) =
     trace (fold (poll_handle e) handles s) @
     [FileWrite lastSeenFile (JSON_stringify (lastSeen (poll e handles s)))] \<and>
   filter (\<lambda>ev. case ev of FileWrite p c \<Rightarrow> True | _ \<Rightarrow> False) (trace (poll e handles s)) =
     filter (\<lambda>ev. case ev of FileWrite p c \<Rightarrow> True | _ \<Rightarrow> False) (trace s) @
     [FileWrite lastSeenFile (JSON_stringify (lastSeen (poll e handles s)))] \<and>
   (writable e lastSeenFile \<longrightarrow>
      disk (poll e handles s) lastSeenFile =
        Some (Contents (JSON_stringify (lastSeen (poll e handles s))))) \<and>
   disk (poll e handles s) userIdFile = disk s userIdFile \<and>
   userIds (poll e handles s) = userIds s"
  by (simp add: poll_def writeFileSync_def Let_def)


theorem poll_saves_watermarks_only_witness:
  "disk (poll
      \<lparr>users_by_username = (\<lambda>u. HttpError),
       users_tweets = (\<lambda>u w. HttpOk (Some
         [\<lparr>tweet_id = ''1001'', tweet_text = ''gm'', in_reply_to_user_id = Null\<rparr>])),
       chat_completions = (\<lambda>x. None), v2_tweet = (\<lambda>x. True), writable = (\<lambda>p. True)\<rparr>
      userHandles
      \<lparr>lastSeen = [(''AzoniNFT'', ''1000'')], userIds = [(''AzoniNFT'', ''42'')],
       disk = Map.empty, trace = []\<rparr>) lastSeenFile =
     Some (Contents (JSON_stringify [(''AzoniNFT'', ''1001'')])) \<and>
   disk (poll
      \<lparr>users_by_username = (\<lambda>u. HttpError),
       users_tweets = (\<lambda>u w. HttpOk (Some
         [\<lparr>tweet_id = ''1001'', tweet_text = ''gm'', in_reply_to_user_id = Null\<rparr>])),
       chat_completions = (\<lambda>x. None), v2_tweet = (\<lambda>x. True), writable = (\<lambda>p. True)\<rparr>
      userHandles
      \<lparr>lastSeen = [(''AzoniNFT'', ''1000'')], userIds = [(''AzoniNFT'', ''42'')],
       disk = Map.empty, trace = []\<rparr>) userIdFile = None"
proof -
  let ?e = "\<lparr>users_by_username = (\<lambda>u. HttpError),
       users_tweets = (\<lambda>u w. HttpOk (Some
         [\<lparr>tweet_id = ''1001'', tweet_text = ''gm'', in_reply_to_user_id = Null\<rparr>])),
       chat_completions = (\<lambda>x. None), v2_tweet = (\<lambda>x. True), writable = (\<lambda>p. True)\<rparr>"
  let ?s = "\<lparr>lastSeen = [(''AzoniNFT'', ''1000'')], userIds = [(''AzoniNFT'', ''42'')],
       disk = Map.empty, trace = []\<rparr>"
  have w: "writable ?e lastSeenFile" by simp
  have l: "lastSeen (poll ?e userHandles ?s) = [(''AzoniNFT'', ''1001'')]"
    by (simp add: poll_def userHandles_def poll_handle_def getNewTweets_def since_param_def
        writeFileSync_def generateQuote_def emit_def)
  show ?thesis
    using poll_saves_watermarks_only [of ?e userHandles ?s] w l by simp
qed

section \<open>Bootstrap: resolved and unresolved handles\<close>

lemma map_of_assign:
  "map_of (assign k v obj) h =
     (if h = k \<and> (k \<noteq> ''__proto__'' \<or> map_of obj k \<noteq> None) then Some v else map_of obj h)"
  by (auto simp: assign_def update_conv')

lemma init_handle_newUserIds:
  "map_of (newUserIds (fst (init_handle e h' acc))) h =
     (if h' = h then (case users_by_username e h of
                        HttpOk (Some i) \<Rightarrow> map_of (assign h i (newUserIds (fst acc))) h
                      | _ \<Rightarrow> map_of (newUserIds (fst acc)) h)
      else map_of (newUserIds (fst acc)) h)"
  by (cases acc)
     (simp add: init_handle_def getUserId_def getLatestTweet_def Let_def map_of_assign
        split: http.splits option.splits list.splits)

lemma init_handle_newLastSeen:
  "map_of (newLastSeen (fst (init_handle e h' acc))) h =
     (if h' = h then
        (case users_by_username e h of
           HttpOk (Some i) \<Rightarrow>
             (case users_tweets e i None of
                HttpOk (Some (t # ts)) \<Rightarrow>
                  if tweet_id t \<noteq> []
                  then map_of (assign h (tweet_id t) (newLastSeen (fst acc))) h
                  else map_of (newLastSeen (fst acc)) h
              | _ \<Rightarrow> map_of (newLastSeen (fst acc)) h)
         | _ \<Rightarrow> map_of (newLastSeen (fst acc)) h)
      else map_of (newLastSeen (fst acc)) h)"
  by (cases acc)
     (simp add: init_handle_def getUserId_def getLatestTweet_def Let_def map_of_assign
        split: http.splits option.splits list.splits)

lemma init_handle_effects:
  "disk (snd (init_handle e h' acc)) = disk (snd acc)"
  "filter (\<lambda>ev. case ev of FileWrite p c \<Rightarrow> True | _ \<Rightarrow> False) (trace (snd (init_handle e h' acc)))
   = filter (\<lambda>ev. case ev of FileWrite p c \<Rightarrow> True | _ \<Rightarrow> False) (trace (snd acc))"
  by (cases acc;
      simp add: init_handle_def getUserId_def getLatestTweet_def Let_def
        split: http.splits option.splits list.splits)+

lemma init_loop_effects:
  "disk (snd (fold (init_handle e) handles acc)) = disk (snd acc)"
  "filter (\<lambda>ev. case ev of FileWrite p c \<Rightarrow> True | _ \<Rightarrow> False)
     (trace (snd (fold (init_handle e) handles acc)))
   = filter (\<lambda>ev. case ev of FileWrite p c \<Rightarrow> True | _ \<Rightarrow> False) (trace (snd acc))"
  by (induction handles arbitrary: acc; simp add: init_handle_effects)+

lemma init_loop_resolved:
  assumes "users_by_username e h = HttpOk (Some userId)"
    and "h \<in> set handles \<or> map_of (newUserIds (fst acc)) h = Some userId"
    and "h \<noteq> ''__proto__''"
  shows "map_of (newUserIds (fst (fold (init_handle e) handles acc))) h = Some userId"
  using assms(2)
proof (induction handles arbitrary: acc)
  case Nil
  then show ?case by simp
next
  case (Cons h' handles)
  show ?case
  proof (cases "h \<in> set handles")
    case True
    with Cons.IH [of "init_handle e h' acc"] show ?thesis by simp
  next
    case False
    with Cons.prems have "h' = h \<or> map_of (newUserIds (fst acc)) h = Some userId" by auto
    then have "map_of (newUserIds (fst (init_handle e h' acc))) h = Some userId"
      using assms(1,3) by (auto simp: init_handle_newUserIds map_of_assign)
    with Cons.IH [of "init_handle e h' acc"] show ?thesis by simp
  qed
qed

lemma init_loop_seeded:
  assumes "users_by_username e h = HttpOk (Some userId)"
    and "users_tweets e userId None = HttpOk (Some (t # ts))" and "tweet_id t \<noteq> []"
    and "h \<in> set handles \<or> map_of (newLastSeen (fst acc)) h = Some (tweet_id t)"
    and "h \<noteq> ''__proto__''"
  shows "map_of (newLastSeen (fst (fold (init_handle e) handles acc))) h = Some (tweet_id t)"
  using assms(4)
proof (induction handles arbitrary: acc)
  case Nil
  then show ?case by simp
next
  case (Cons h' handles)
  show ?case
  proof (cases "h \<in> set handles")
    case True
    with Cons.IH [of "init_handle e h' acc"] show ?thesis by simp
  next
    case False
    with Cons.prems have "h' = h \<or> map_of (newLastSeen (fst acc)) h = Some (tweet_id t)" by auto
    then have "map_of (newLastSeen (fst (init_handle e h' acc))) h = Some (tweet_id t)"
      using assms(1-3,5) by (auto simp: init_handle_newLastSeen map_of_assign)
    with Cons.IH [of "init_handle e h' acc"] show ?thesis by simp
  qed
qed

lemma init_loop_skipped:
  assumes "users_by_username e h = HttpError \<or> users_by_username e h = HttpOk None"
  shows "map_of (newUserIds (fst (fold (init_handle e) handles acc))) h = map_of (newUserIds (fst acc)) h"
    and "map_of (newLastSeen (fst (fold (init_handle e) handles acc))) h = map_of (newLastSeen (fst acc)) h"
proof -
  show "map_of (newUserIds (fst (fold (init_handle e) handles acc))) h = map_of (newUserIds (fst acc)) h"
  proof (induction handles arbitrary: acc)
    case Nil
    show ?case by simp
  next
    case (Cons h' handles)
    have "map_of (newUserIds (fst (init_handle e h' acc))) h = map_of (newUserIds (fst acc)) h"
      using assms by (auto simp: init_handle_newUserIds)
    with Cons [of "init_handle e h' acc"] show ?case by simp
  qed
  show "map_of (newLastSeen (fst (fold (init_handle e) handles acc))) h = map_of (newLastSeen (fst acc)) h"
  proof (induction handles arbitrary: acc)
    case Nil
    show ?case by simp
  next
    case (Cons h' handles)
    have "map_of (newLastSeen (fst (init_handle e h' acc))) h = map_of (newLastSeen (fst acc)) h"
      using assms by (auto simp: init_handle_newLastSeen)
    with Cons [of "init_handle e h' acc"] show ?case by simp
  qed
qed

lemma save_cache_effects:
  assumes "writable e lastSeenFile" and "writable e userIdFile"
  shows "disk (save_cache e b s) lastSeenFile = Some (Contents (JSON_stringify (newLastSeen b)))"
    and "disk (save_cache e b s) userIdFile = Some (Contents (JSON_stringify (newUserIds b)))"
    and "trace (save_cache e b s) = trace s @
          [FileWrite lastSeenFile (JSON_stringify (newLastSeen b)),
           FileWrite userIdFile (JSON_stringify (newUserIds b))]"
  using assms by (simp_all add: save_cache_def writeFileSync_def)

text \<open>
  For two configured handles, \<open>h1\<close> other than \<open>__proto__\<close> whose lookup gives an
  account ID with a latest post, and \<open>h2\<close> whose lookup throws: \<open>h1\<close> is a key of both
  mappings the bootstrap built, \<open>h2\<close> of neither, the loop writes no file, and after the
  loop each mapping is written once, to its file, which then holds it (both files being
  writable).
\<close>

lemma bootstrap_resolved_and_failed:
  assumes "h1 \<in> set handles" and "users_by_username e h1 = HttpOk (Some userId)"
    and "users_tweets e userId None = HttpOk (Some (t # ts))" and "tweet_id t \<noteq> []"
    and "h2 \<in> set handles"
    and "users_by_username e h2 = HttpError \<or> users_by_username e h2 = HttpOk None"
    and "writable e lastSeenFile" and "writable e userIdFile"
    and "h1 \<noteq> ''__proto__''"
  shows "map_of (newLastSeen (fst (init_handles e handles s))) h1 = Some (tweet_id t) \<and>
         map_of (newUserIds (fst (init_handles e handles s))) h1 = Some userId \<and>
         map_of (newLastSeen (fst (init_handles e handles s))) h2 = None \<and>
         map_of (newUserIds (fst (init_handles e handles s))) h2 = None \<and>
         disk (initializeLastSeen e handles s) lastSeenFile =
           Some (Contents (JSON_stringify (newLastSeen (fst (init_handles e handles s))))) \<and>
         disk (initializeLastSeen e handles s) userIdFile =
           Some (Contents (JSON_stringify (newUserIds (fst (init_handles e handles s))))) \<and>
         trace (initializeLastSeen e handles s) =
           trace (snd (init_handles e handles s)) @
           [FileWrite lastSeenFile (JSON_stringify (newLastSeen (fst (init_handles e handles s)))),
            FileWrite userIdFile (JSON_stringify (newUserIds (fst (init_handles e handles s))))] \<and>
         filter (\<lambda>ev. case ev of FileWrite p c \<Rightarrow> True | _ \<Rightarrow> False)
             (trace (snd (init_handles e handles s))) =
           filter (\<lambda>ev. case ev of FileWrite p c \<Rightarrow> True | _ \<Rightarrow> False) (trace s)"
proof -
  let ?acc = "(\<lparr>newLastSeen = [], newUserIds = []\<rparr>, s)"
  have a: "map_of (newLastSeen (fst (init_handles e handles s))) h1 = Some (tweet_id t)"
    unfolding init_handles_def
    by (rule init_loop_seeded [OF assms(2,3,4)]) (simp_all add: assms(1,9))
  have b: "map_of (newUserIds (fst (init_handles e handles s))) h1 = Some userId"
    unfolding init_handles_def
    by (rule init_loop_resolved [OF assms(2)]) (simp_all add: assms(1,9))
  have c: "map_of (newLastSeen (fst (init_handles e handles s))) h2 = None"
    unfolding init_handles_def by (simp add: init_loop_skipped(2) [OF assms(6)])
  have d: "map_of (newUserIds (fst (init_handles e handles s))) h2 = None"
    unfolding init_handles_def by (simp add: init_loop_skipped(1) [OF assms(6)])
  have i: "initializeLastSeen e handles s =
      save_cache e (fst (init_handles e handles s)) (snd (init_handles e handles s))"
    by (simp add: initializeLastSeen_def split: prod.splits)
  have w: "filter (\<lambda>ev. case ev of FileWrite p c \<Rightarrow> True | _ \<Rightarrow> False)
             (trace (snd (init_handles e handles s))) =
           filter (\<lambda>ev. case ev of FileWrite p c \<Rightarrow> True | _ \<Rightarrow> False) (trace s)"
    unfolding init_handles_def by (simp add: init_loop_effects)
  show ?thesis
    using a b c d w by (simp add: i save_cache_effects [OF assms(7,8)])
qed


section \<open>The watermark only moves forward\<close>

lemma newest_first_kept:
  assumes "newest_first ts" and "filter P ts = t # rest" and "p \<in> set ts" and "P p"
  shows "id_num (tweet_id p) \<le> id_num (tweet_id t)"
proof -
  have "sorted_wrt (\<lambda>a b. id_num (tweet_id b) < id_num (tweet_id a)) (filter P ts)"
    using assms(1) by (simp add: newest_first_def sorted_wrt_filter)
  then have "\<forall>x \<in> set rest. id_num (tweet_id x) < id_num (tweet_id t)"
    by (simp add: assms(2))
  moreover have "p \<in> set (t # rest)"
    using assms(3,4) by (simp flip: assms(2))
  ultimately show ?thesis by auto
qed

lemma id_num_Nil [simp]: "id_num [] = 0"
  by (simp add: id_num_def)

lemma since_param_Some:
  "map_of (lastSeen s) h = Some w \<Longrightarrow> since_param s h = (if w = [] then None else Some w)"
  by (simp add: since_param_def)

lemma getNewTweets_watermark:
  assumes "since_id_respected e" and "map_of (lastSeen s) h = Some w"
  shows "\<exists>w'. map_of (lastSeen (snd (getNewTweets e userId h' s))) h = Some w' \<and>
              (w' = w \<or> w = [] \<or> id_num w < id_num w')"
proof (cases "users_tweets e userId (since_param s h')")
  case HttpError
  then show ?thesis using assms(2) by (simp add: getNewTweets_def)
next
  case (HttpOk d)
  let ?kept = "filter (\<lambda>t. in_reply_to_user_id t = Null) (case d of None \<Rightarrow> [] | Some ts \<Rightarrow> ts)"
  show ?thesis
  proof (cases ?kept)
    case Nil
    then show ?thesis using assms(2) HttpOk by (simp add: getNewTweets_ok)
  next
    case (Cons t rest)
    have ls: "lastSeen (snd (getNewTweets e userId h' s)) = AList.update h' (tweet_id t) (lastSeen s)"
      using HttpOk Cons by (simp add: getNewTweets_ok)
    show ?thesis
    proof (cases "h' = h")
      case False
      then show ?thesis using assms(2) by (simp add: ls update_conv')
    next
      case True
      have "t \<in> set ?kept" using Cons by simp
      then obtain ts where d: "d = Some ts" and t: "t \<in> set ts"
        by (cases d) auto
      have "w = [] \<or> id_num w < id_num (tweet_id t)"
      proof (cases "w = []")
        case False
        then have "users_tweets e userId (Some w) = HttpOk (Some ts)"
          using HttpOk d True since_param_Some [OF assms(2)] by simp
        with assms(1) t show ?thesis by (auto simp: since_id_respected_def)
      qed simp
      moreover have "map_of (lastSeen (snd (getNewTweets e userId h' s))) h = Some (tweet_id t)"
        unfolding ls using True by (simp add: update_conv')
      ultimately show ?thesis by blast
    qed
  qed
qed

lemma poll_handle_lastSeen_eq:
  "lastSeen (poll_handle e h' s) =
     (case map_of (userIds s) h' of
        None \<Rightarrow> lastSeen s
      | Some userId \<Rightarrow>
          if userId = [] then lastSeen s else lastSeen (snd (getNewTweets e userId h' s)))"
  by (simp add: poll_handle_def split: option.splits prod.splits)

lemma poll_handle_lastSeen:
  "lastSeen (poll_handle e h' s) = lastSeen s \<or>
   (\<exists>userId. lastSeen (poll_handle e h' s) = lastSeen (snd (getNewTweets e userId h' s)))"
  by (auto simp: poll_handle_lastSeen_eq split: option.splits)

lemma poll_handle_watermark:
  assumes "since_id_respected e" and "map_of (lastSeen s) h = Some w"
  shows "\<exists>w'. map_of (lastSeen (poll_handle e h' s)) h = Some w' \<and>
              (w' = w \<or> w = [] \<or> id_num w < id_num w')"
  using poll_handle_lastSeen [of e h' s] getNewTweets_watermark [OF assms] assms(2)
  by auto

lemma newer_trans:
  assumes "w1 = w \<or> w = [] \<or> id_num w < id_num w1"
    and "w2 = w1 \<or> w1 = [] \<or> id_num w1 < id_num w2"
  shows "w2 = w \<or> w = [] \<or> id_num w < id_num w2"
  using assms by (cases "w1 = []") auto

lemma poll_loop_watermark:
  assumes "since_id_respected e" and "map_of (lastSeen s) h = Some w"
  shows "\<exists>w'. map_of (lastSeen (fold (poll_handle e) handles s)) h = Some w' \<and>
              (w' = w \<or> w = [] \<or> id_num w < id_num w')"
  using assms(2)
proof (induction handles arbitrary: s w)
  case Nil
  then show ?case by simp
next
  case (Cons h' handles)
  obtain w1 where w1: "map_of (lastSeen (poll_handle e h' s)) h = Some w1"
    "w1 = w \<or> w = [] \<or> id_num w < id_num w1"
    using poll_handle_watermark [OF assms(1) Cons.prems] by blast
  obtain w2 where w2: "map_of (lastSeen (fold (poll_handle e) handles (poll_handle e h' s))) h = Some w2"
    "w2 = w1 \<or> w1 = [] \<or> id_num w1 < id_num w2"
    using Cons.IH [OF w1(1)] by blast
  show ?case
    using w2(1) newer_trans [OF w1(2) w2(2)] by simp
qed

lemma poll_lastSeen: "lastSeen (poll e handles s) = lastSeen (fold (poll_handle e) handles s)"
  by (simp add: poll_def writeFileSync_def Let_def)

lemma poll_loop_quiet:
  assumes "\<forall>userId since ts. users_tweets e userId since = HttpOk (Some ts) \<longrightarrow>
             filter (\<lambda>t. in_reply_to_user_id t = Null) ts = []"
  shows "lastSeen (fold (poll_handle e) handles s) = lastSeen s"
proof (induction handles arbitrary: s)
  case Nil
  show ?case by simp
next
  case (Cons h' handles)
  have "lastSeen (snd (getNewTweets e userId h' s)) = lastSeen s" for userId
    using assms
    by (cases "users_tweets e userId (since_param s h')")
       (auto simp: getNewTweets_def Let_def split: option.splits list.splits)
  then have "lastSeen (poll_handle e h' s) = lastSeen s"
    using poll_handle_lastSeen [of e h' s] by auto
  with Cons [of "poll_handle e h' s"] show ?case by simp
qed

lemma getNewTweets_other:
  "h' \<noteq> h \<Longrightarrow> map_of (lastSeen (snd (getNewTweets e userId h' s))) h = map_of (lastSeen s) h"
  by (simp add: getNewTweets_def Let_def update_conv' split: http.splits list.splits)

lemma poll_handle_other:
  "h' \<noteq> h \<Longrightarrow> map_of (lastSeen (poll_handle e h' s)) h = map_of (lastSeen s) h"
  by (simp add: poll_handle_lastSeen_eq getNewTweets_other split: option.splits)

lemma turn_watermark:
  assumes "since_id_respected e" and "answers_newest_first e"
    and "map_of (lastSeen s) h = Some w"
  shows "\<exists>w1. map_of (lastSeen (poll_handle e h s)) h = Some w1 \<and>
           (if turn_posts e h s = [] then w1 = w
            else (\<exists>p \<in> set (turn_posts e h s). w1 = tweet_id p) \<and>
                 (\<forall>q \<in> set (turn_posts e h s). id_num (tweet_id q) \<le> id_num w1) \<and>
                 (w = [] \<or> id_num w < id_num w1))"
proof (cases "map_of (userIds s) h")
  case None
  then show ?thesis using assms(3) by (simp add: poll_handle_def turn_posts_def)
next
  case (Some userId)
  show ?thesis
  proof (cases "userId = []")
    case True
    then show ?thesis using Some assms(3) by (simp add: poll_handle_def turn_posts_def)
  next
    case False
    have tp: "turn_posts e h s = fst (getNewTweets e userId h s)"
      using Some False by (simp add: turn_posts_def)
    have ls: "lastSeen (poll_handle e h s) = lastSeen (snd (getNewTweets e userId h s))"
      using Some False by (simp add: poll_handle_lastSeen_eq)
    show ?thesis
    proof (cases "users_tweets e userId (since_param s h)")
      case HttpError
      then show ?thesis using assms(3) by (simp add: tp ls getNewTweets_def)
    next
      case (HttpOk d)
      let ?kept = "filter (\<lambda>t. in_reply_to_user_id t = Null) (case d of None \<Rightarrow> [] | Some ts \<Rightarrow> ts)"
      show ?thesis
      proof (cases ?kept)
        case Nil
        then show ?thesis using assms(3) HttpOk by (simp add: tp ls getNewTweets_ok)
      next
        case (Cons t rest)
        have "t \<in> set ?kept" using Cons by simp
        then obtain ts where d: "d = Some ts" and t: "t \<in> set ts"
          by (cases d) auto
        have kept: "filter (\<lambda>t. in_reply_to_user_id t = Null) ts = t # rest"
          using Cons d by simp
        have posts: "turn_posts e h s = rev (t # rest)"
          using HttpOk d kept by (simp add: tp getNewTweets_ok)
        have w1: "map_of (lastSeen (poll_handle e h s)) h = Some (tweet_id t)"
          using HttpOk d kept by (simp add: ls getNewTweets_ok update_conv')
        have nf: "newest_first ts"
          using assms(2) HttpOk d by (auto simp: answers_newest_first_def)
        have top: "\<forall>q \<in> set (t # rest). id_num (tweet_id q) \<le> id_num (tweet_id t)"
        proof
          fix q assume "q \<in> set (t # rest)"
          then have "q \<in> set ts \<and> in_reply_to_user_id q = Null"
            by (simp flip: kept)
          then show "id_num (tweet_id q) \<le> id_num (tweet_id t)"
            using newest_first_kept [OF nf kept] by blast
        qed
        have newer: "w = [] \<or> id_num w < id_num (tweet_id t)"
        proof (cases "w = []")
          case False
          then have "users_tweets e userId (Some w) = HttpOk (Some ts)"
            using HttpOk d since_param_Some [OF assms(3)] by simp
          with assms(1) t show ?thesis by (auto simp: since_id_respected_def)
        qed simp
        show ?thesis
          using w1 top newer by (auto simp: posts)
      qed
    qed
  qed
qed

lemma poll_loop_newest:
  assumes "since_id_respected e" and "answers_newest_first e"
    and "map_of (lastSeen s) h = Some w"
  shows "\<exists>w'. map_of (lastSeen (fold (poll_handle e) handles s)) h = Some w' \<and>
           (if cycle_posts e h handles s = [] then w' = w
            else (\<exists>p \<in> set (cycle_posts e h handles s). w' = tweet_id p) \<and>
                 (\<forall>q \<in> set (cycle_posts e h handles s). id_num (tweet_id q) \<le> id_num w') \<and>
                 (w = [] \<or> id_num w < id_num w'))"
  using assms(3)
proof (induction handles arbitrary: s w)
  case Nil
  then show ?case by simp
next
  case (Cons h' handles)
  let ?T = "if h' = h then turn_posts e h s else []"
  let ?s1 = "poll_handle e h' s"
  let ?C = "cycle_posts e h handles ?s1"
  obtain w1 where w1: "map_of (lastSeen ?s1) h = Some w1"
    and t1: "if ?T = [] then w1 = w
            else (\<exists>p \<in> set ?T. w1 = tweet_id p) \<and>
                 (\<forall>q \<in> set ?T. id_num (tweet_id q) \<le> id_num w1) \<and>
                 (w = [] \<or> id_num w < id_num w1)"
  proof (cases "h' = h")
    case True
    with turn_watermark [OF assms(1,2) Cons.prems] that show ?thesis by auto
  next
    case False
    with poll_handle_other [of h' h e s] Cons.prems that show ?thesis by auto
  qed
  obtain w' where w': "map_of (lastSeen (fold (poll_handle e) handles ?s1)) h = Some w'"
    and t2: "if ?C = [] then w' = w1
            else (\<exists>p \<in> set ?C. w' = tweet_id p) \<and>
                 (\<forall>q \<in> set ?C. id_num (tweet_id q) \<le> id_num w') \<and>
                 (w1 = [] \<or> id_num w1 < id_num w')"
    using Cons.IH [OF w1] by blast
  have le: "id_num w1 \<le> id_num w'" if "?C \<noteq> []"
    using t2 that by auto
  have cp: "cycle_posts e h (h' # handles) s = ?T @ ?C" by simp
  have "if ?T @ ?C = [] then w' = w
        else (\<exists>p \<in> set (?T @ ?C). w' = tweet_id p) \<and>
             (\<forall>q \<in> set (?T @ ?C). id_num (tweet_id q) \<le> id_num w') \<and>
             (w = [] \<or> id_num w < id_num w')"
  proof (cases "?T = []")
    case T: True
    show ?thesis
    proof (cases "?C = []")
      case True
      with T t1 t2 show ?thesis by (auto split: if_splits)
    next
      case False
      with T t1 t2 show ?thesis by (auto split: if_splits)
    qed
  next
    case T: False
    show ?thesis
    proof (cases "?C = []")
      case True
      with T t1 t2 show ?thesis by (auto split: if_splits)
    next
      case False
      have a: "\<exists>p \<in> set (?T @ ?C). w' = tweet_id p" using t2 False by auto
      have b: "\<forall>q \<in> set (?T @ ?C). id_num (tweet_id q) \<le> id_num w'"
        using t1 t2 T False le [OF False] by (auto intro: order_trans)
      have c: "w = [] \<or> id_num w < id_num w'"
        using t1 T le [OF False] by auto
      show ?thesis using a b c T by (auto split: if_splits)
    qed
  qed
  then show ?case using w' unfolding cp by simp
qed

text \<open>
  Claim C2. Let the platform answer a request that carries \<open>since_id\<close> with newer posts
  only. For every handle with a cached watermark \<open>w\<close>, the handle has a watermark
  \<open>w'\<close> after a poll cycle, and \<open>w'\<close> is not older than \<open>w\<close>: it is \<open>w\<close> itself
  or the ID of a newer post (any post, when \<open>w\<close> is the empty string, which no request
  carries). When the platform also answers newest first: \<open>w'\<close> is \<open>w\<close> when the
  cycle observed no qualifying post for the handle, and otherwise \<open>w'\<close> is the ID of
  one of the qualifying posts observed for the handle in the cycle and no such post is
  newer, that is, \<open>w'\<close> is the most recent qualifying post observed. When no fetch
  of the cycle brings a post that passes the filter, all watermarks are unchanged.
\<close>

theorem watermark_never_decreases:
  assumes "since_id_respected e" and "map_of (lastSeen s) h = Some w"
  shows "(\<exists>w'. map_of (lastSeen (poll e handles s)) h = Some w' \<and>
               id_num w \<le> id_num w' \<and> (w' = w \<or> w = [] \<or> id_num w < id_num w') \<and>
               (answers_newest_first e \<longrightarrow>
                  (if cycle_posts e h handles s = [] then w' = w
                   else (\<exists>p \<in> set (cycle_posts e h handles s). w' = tweet_id p) \<and>
                        (\<forall>q \<in> set (cycle_posts e h handles s).
                           id_num (tweet_id q) \<le> id_num w')))) \<and>
         ((\<forall>userId since ts. users_tweets e userId since = HttpOk (Some ts) \<longrightarrow>
             filter (\<lambda>t. in_reply_to_user_id t = Null) ts = [])
          \<longrightarrow> lastSeen (poll e handles s) = lastSeen s)"
proof -
  obtain w' where w': "map_of (lastSeen (poll e handles s)) h = Some w'"
    "w' = w \<or> w = [] \<or> id_num w < id_num w'"
    using poll_loop_watermark [OF assms] by (auto simp: poll_lastSeen)
  have le: "id_num w \<le> id_num w'" using w'(2) by auto
  have newest: "if cycle_posts e h handles s = [] then w' = w
      else (\<exists>p \<in> set (cycle_posts e h handles s). w' = tweet_id p) \<and>
           (\<forall>q \<in> set (cycle_posts e h handles s). id_num (tweet_id q) \<le> id_num w')"
    if nf: "answers_newest_first e"
  proof -
    obtain w2 where w2: "map_of (lastSeen (fold (poll_handle e) handles s)) h = Some w2"
      "if cycle_posts e h handles s = [] then w2 = w
       else (\<exists>p \<in> set (cycle_posts e h handles s). w2 = tweet_id p) \<and>
            (\<forall>q \<in> set (cycle_posts e h handles s). id_num (tweet_id q) \<le> id_num w2) \<and>
            (w = [] \<or> id_num w < id_num w2)"
      using poll_loop_newest [OF assms(1) nf assms(2)] by blast
    have "w2 = w'" using w2(1) w'(1) by (simp add: poll_lastSeen)
    with w2(2) show ?thesis by (auto split: if_splits)
  qed
  have quiet: "lastSeen (poll e handles s) = lastSeen s"
    if "\<forall>userId since ts. users_tweets e userId since = HttpOk (Some ts) \<longrightarrow>
             filter (\<lambda>t. in_reply_to_user_id t = Null) ts = []"
    using poll_loop_quiet [OF that] by (simp add: poll_lastSeen)
  show ?thesis using w' le newest quiet by blast
qed

theorem watermark_never_decreases_witness:
  "since_id_respected
      \<lparr>users_by_username = (\<lambda>u. HttpError),
       users_tweets = (\<lambda>u w. if w = Some ''1000'' then HttpOk (Some
         [\<lparr>tweet_id = ''1003'', tweet_text = ''gm'', in_reply_to_user_id = Null\<rparr>,
          \<lparr>tweet_id = ''1002'', tweet_text = ''re'', in_reply_to_user_id = Str ''9''\<rparr>,
          \<lparr>tweet_id = ''1001'', tweet_text = ''gn'', in_reply_to_user_id = Null\<rparr>])
         else HttpOk None),
       chat_completions = (\<lambda>x. None), v2_tweet = (\<lambda>x. True), writable = (\<lambda>p. True)\<rparr> \<and>
   answers_newest_first
      \<lparr>users_by_username = (\<lambda>u. HttpError),
       users_tweets = (\<lambda>u w. if w = Some ''1000'' then HttpOk (Some
         [\<lparr>tweet_id = ''1003'', tweet_text = ''gm'', in_reply_to_user_id = Null\<rparr>,
          \<lparr>tweet_id = ''1002'', tweet_text = ''re'', in_reply_to_user_id = Str ''9''\<rparr>,
          \<lparr>tweet_id = ''1001'', tweet_text = ''gn'', in_reply_to_user_id = Null\<rparr>])
         else HttpOk None),
       chat_completions = (\<lambda>x. None), v2_tweet = (\<lambda>x. True), writable = (\<lambda>p. True)\<rparr> \<and>
   cycle_posts
      \<lparr>users_by_username = (\<lambda>u. HttpError),
       users_tweets = (\<lambda>u w. if w = Some ''1000'' then HttpOk (Some
         [\<lparr>tweet_id = ''1003'', tweet_text = ''gm'', in_reply_to_user_id = Null\<rparr>,
          \<lparr>tweet_id = ''1002'', tweet_text = ''re'', in_reply_to_user_id = Str ''9''\<rparr>,
          \<lparr>tweet_id = ''1001'', tweet_text = ''gn'', in_reply_to_user_id = Null\<rparr>])
         else HttpOk None),
       chat_completions = (\<lambda>x. None), v2_tweet = (\<lambda>x. True), writable = (\<lambda>p. True)\<rparr>
      ''AzoniNFT'' userHandles
      \<lparr>lastSeen = [(''AzoniNFT'', ''1000'')], userIds = [(''AzoniNFT'', ''42'')],
       disk = Map.empty, trace = []\<rparr> =
     [\<lparr>tweet_id = ''1001'', tweet_text = ''gn'', in_reply_to_user_id = Null\<rparr>,
      \<lparr>tweet_id = ''1003'', tweet_text = ''gm'', in_reply_to_user_id = Null\<rparr>] \<and>
   map_of (lastSeen (poll
      \<lparr>users_by_username = (\<lambda>u. HttpError),
       users_tweets = (\<lambda>u w. if w = Some ''1000'' then HttpOk (Some
         [\<lparr>tweet_id = ''1003'', tweet_text = ''gm'', in_reply_to_user_id = Null\<rparr>,
          \<lparr>tweet_id = ''1002'', tweet_text = ''re'', in_reply_to_user_id = Str ''9''\<rparr>,
          \<lparr>tweet_id = ''1001'', tweet_text = ''gn'', in_reply_to_user_id = Null\<rparr>])
         else HttpOk None),
       chat_completions = (\<lambda>x. None), v2_tweet = (\<lambda>x. True), writable = (\<lambda>p. True)\<rparr>
      userHandles
      \<lparr>lastSeen = [(''AzoniNFT'', ''1000'')], userIds = [(''AzoniNFT'', ''42'')],
       disk = Map.empty, trace = []\<rparr>)) ''AzoniNFT'' = Some ''1003'' \<and>
   id_num ''1000'' < id_num ''1001'' \<and> id_num ''1001'' < id_num ''1003''"
proof -
  let ?e = "\<lparr>users_by_username = (\<lambda>u. HttpError),
       users_tweets = (\<lambda>u w. if w = Some ''1000'' then HttpOk (Some
         [\<lparr>tweet_id = ''1003'', tweet_text = ''gm'', in_reply_to_user_id = Null\<rparr>,
          \<lparr>tweet_id = ''1002'', tweet_text = ''re'', in_reply_to_user_id = Str ''9''\<rparr>,
          \<lparr>tweet_id = ''1001'', tweet_text = ''gn'', in_reply_to_user_id = Null\<rparr>])
         else HttpOk None),
       chat_completions = (\<lambda>x. None), v2_tweet = (\<lambda>x. True), writable = (\<lambda>p. True)\<rparr>"
  let ?s = "\<lparr>lastSeen = [(''AzoniNFT'', ''1000'')], userIds = [(''AzoniNFT'', ''42'')],
       disk = Map.empty, trace = []\<rparr>"
  have n: "id_num ''1000'' < id_num ''1003''" "id_num ''1000'' < id_num ''1002''"
    "id_num ''1000'' < id_num ''1001''" "id_num ''1001'' < id_num ''1002''"
    "id_num ''1002'' < id_num ''1003''" "id_num ''1001'' < id_num ''1003''"
    by (simp_all add: id_num_def)
  have c: "since_id_respected ?e"
    using n by (auto simp: since_id_respected_def split: if_splits)
  have o: "answers_newest_first ?e"
    using n by (auto simp: answers_newest_first_def newest_first_def split: if_splits)
  have m: "map_of (lastSeen ?s) ''AzoniNFT'' = Some ''1000''" by simp
  have cp: "cycle_posts ?e ''AzoniNFT'' userHandles ?s =
     [\<lparr>tweet_id = ''1001'', tweet_text = ''gn'', in_reply_to_user_id = Null\<rparr>,
      \<lparr>tweet_id = ''1003'', tweet_text = ''gm'', in_reply_to_user_id = Null\<rparr>]"
    by (simp add: userHandles_def turn_posts_def getNewTweets_def since_param_def)
  have v: "map_of (lastSeen (poll ?e userHandles ?s)) ''AzoniNFT'' = Some ''1003''"
    using watermark_never_decreases [OF c m, of userHandles] o n
    by (auto simp: cp)
  show ?thesis
    using c o cp v n by simp
qed

section \<open>The watermark is set before the posts are processed\<close>

lemma poll_loop_other:
  "h \<notin> set pre \<Longrightarrow> map_of (lastSeen (fold (poll_handle e) pre s)) h = map_of (lastSeen s) h"
  by (induction pre arbitrary: s) (auto simp: poll_handle_other)

lemma since_param_cong:
  "map_of (lastSeen s1) h = map_of (lastSeen s) h \<Longrightarrow> since_param s1 h = since_param s h"
  by (simp add: since_param_def)

lemma poll_handle_batch:
  assumes "map_of (userIds s) h = Some userId" and "userId \<noteq> []"
    and "users_tweets e userId (since_param s h) = HttpOk (Some ts)"
    and "filter (\<lambda>t. in_reply_to_user_id t = Null) ts = t # rest"
  shows "poll_handle e h s =
           process_tweets e h (rev (t # rest))
             ((emit (TimelineFetch userId (since_param s h)) s)
                \<lparr>lastSeen := AList.update h (tweet_id t) (lastSeen s)\<rparr>)"
  using assms by (simp add: poll_handle_def getNewTweets_ok)

lemma poll_keeps_bound:
  assumes "since_id_respected e" and "map_of (lastSeen s) h = Some w"
    and "w \<noteq> []" and "n \<le> id_num w"
  shows "\<exists>w'. map_of (lastSeen (fold (poll_handle e) handles s)) h = Some w' \<and>
              w' \<noteq> [] \<and> n \<le> id_num w'"
proof -
  obtain w' where w': "map_of (lastSeen (fold (poll_handle e) handles s)) h = Some w'"
    "w' = w \<or> w = [] \<or> id_num w < id_num w'"
    using poll_loop_watermark [OF assms(1,2)] by blast
  have "w' \<noteq> []" using w'(2) assms(3) by auto
  moreover have "n \<le> id_num w'" using w'(2) assms(3,4) by auto
  ultimately show ?thesis using w'(1) by blast
qed

lemma cycles_keep_bound:
  assumes "\<forall>e' \<in> set later. since_id_respected e'" and "map_of (lastSeen s) h = Some w"
    and "w \<noteq> []" and "n \<le> id_num w"
  shows "\<exists>w'. map_of (lastSeen (poll_cycles later handles s)) h = Some w' \<and>
              w' \<noteq> [] \<and> n \<le> id_num w'"
  using assms
proof (induction later arbitrary: s w)
  case Nil
  then show ?case by (simp add: poll_cycles_def)
next
  case (Cons e1 later)
  have c1: "since_id_respected e1" using Cons.prems(1) by simp
  obtain w1 where w1: "map_of (lastSeen (poll e1 handles s)) h = Some w1" "w1 \<noteq> []" "n \<le> id_num w1"
    using poll_keeps_bound [OF c1 Cons.prems(2,3,4)] by (auto simp: poll_lastSeen)
  have "\<forall>e' \<in> set later. since_id_respected e'" using Cons.prems(1) by simp
  from Cons.IH [OF this w1] show ?case by (simp add: poll_cycles_def)
qed

lemma poll_userIds [simp]: "userIds (poll e handles s) = userIds s"
  by (simp add: poll_def writeFileSync_def Let_def)

lemma cycles_userIds [simp]: "userIds (poll_cycles later handles s) = userIds s"
  by (induction later arbitrary: s) (simp_all add: poll_cycles_def)

lemma getNewTweets_newer:
  assumes "since_id_respected e" and "map_of (lastSeen s) h = Some w" and "w \<noteq> []"
    and "t \<in> set (fst (getNewTweets e userId h s))"
  shows "id_num w < id_num (tweet_id t)"
proof -
  have sp: "since_param s h = Some w" using assms(2,3) by (simp add: since_param_Some)
  from assms(4) obtain ts where "users_tweets e userId (Some w) = HttpOk (Some ts)" "t \<in> set ts"
    by (auto simp: getNewTweets_def Let_def sp split: http.splits option.splits)
  with assms(1) show ?thesis by (auto simp: since_id_respected_def)
qed

text \<open>
  Claim C10. Let the platform answer newest first, with non-empty IDs, and a request that
  carries \<open>since_id\<close> with newer posts only. When the fetch for a handle brings posts that
  pass the filter, \<open>getNewTweets\<close> has already stored the ID of the newest of them as
  the watermark in the state that the processing loop starts from, whose trace ends with
  the fetch; the loop does not touch the watermarks, so the watermark after the handle's
  turn is that ID whatever the completion and publish calls do. Hence, for every post
  \<open>p\<close> of the batch, after this cycle and any number of later cycles the request for the
  handle carries a \<open>since_id\<close> that is not older than \<open>p\<close>, and every post fetched
  for the handle is newer than \<open>p\<close>: \<open>p\<close> is never fetched or processed again.
\<close>

theorem watermark_advanced_before_processing:
  assumes "since_id_respected e" and "\<forall>e' \<in> set later. since_id_respected e'"
    and "since_id_respected e_next"
    and "map_of (userIds s) h = Some userId" and "userId \<noteq> []" and "h \<in> set handles"
    and "users_tweets e userId (since_param s h) = HttpOk (Some ts)"
    and "newest_first ts" and "\<forall>t \<in> set ts. tweet_id t \<noteq> []"
    and "filter (\<lambda>t. in_reply_to_user_id t = Null) ts = newest # rest"
    and "p \<in> set (newest # rest)"
  shows "getNewTweets e userId h s =
           (rev (newest # rest),
            (emit (TimelineFetch userId (since_param s h)) s)
              \<lparr>lastSeen := AList.update h (tweet_id newest) (lastSeen s)\<rparr>) \<and>
         poll_handle e h s =
           process_tweets e h (rev (newest # rest))
             ((emit (TimelineFetch userId (since_param s h)) s)
                \<lparr>lastSeen := AList.update h (tweet_id newest) (lastSeen s)\<rparr>) \<and>
         lastSeen (poll_handle e h s) = AList.update h (tweet_id newest) (lastSeen s) \<and>
         (\<exists>w. since_param (poll_cycles later handles (poll e handles s)) h = Some w \<and>
              id_num (tweet_id p) \<le> id_num w) \<and>
         (\<forall>t \<in> set (fst (getNewTweets e_next userId h
                           (poll_cycles later handles (poll e handles s)))).
            id_num (tweet_id p) < id_num (tweet_id t))"
proof -
  let ?kept = "newest # rest"
  let ?s1 = "(emit (TimelineFetch userId (since_param s h)) s)
              \<lparr>lastSeen := AList.update h (tweet_id newest) (lastSeen s)\<rparr>"
  have g: "getNewTweets e userId h s = (rev ?kept, ?s1)"
    using assms(7,10) by (simp add: getNewTweets_ok)
  have ph: "poll_handle e h s = process_tweets e h (rev ?kept) ?s1"
    by (rule poll_handle_batch [OF assms(4,5,7,10)])
  have ls: "lastSeen (poll_handle e h s) = AList.update h (tweet_id newest) (lastSeen s)"
    unfolding ph by (simp del: process_tweets.simps)
  \<comment> \<open>the first cycle, up to and including the first turn of \<open>h\<close>\<close>
  obtain pre post where split: "handles = pre @ h # post" "h \<notin> set pre"
    using split_list_first [OF assms(6)] by blast
  let ?sp = "fold (poll_handle e) pre s"
  have sp_ls: "map_of (lastSeen ?sp) h = map_of (lastSeen s) h"
    by (rule poll_loop_other [OF split(2)])
  have sp_since: "since_param ?sp h = since_param s h"
    by (rule since_param_cong [OF sp_ls])
  have sp_uid: "map_of (userIds ?sp) h = Some userId" using assms(4) by simp
  have sp_fetch: "users_tweets e userId (since_param ?sp h) = HttpOk (Some ts)"
    using assms(7) by (simp add: sp_since)
  have "poll_handle e h ?sp =
           process_tweets e h (rev ?kept)
             ((emit (TimelineFetch userId (since_param ?sp h)) ?sp)
                \<lparr>lastSeen := AList.update h (tweet_id newest) (lastSeen ?sp)\<rparr>)"
    by (rule poll_handle_batch [OF sp_uid assms(5) sp_fetch assms(10)])
  then have turn: "map_of (lastSeen (poll_handle e h ?sp)) h = Some (tweet_id newest)"
    by (simp del: process_tweets.simps add: update_conv')
  have "newest \<in> set (filter (\<lambda>t. in_reply_to_user_id t = Null) ts)"
    by (simp add: assms(10))
  then have newest_in: "newest \<in> set ts" by simp
  have ne: "tweet_id newest \<noteq> []" using assms(9) newest_in by blast
  have p_in: "p \<in> set ts" "in_reply_to_user_id p = Null"
    using assms(11) by (simp_all flip: assms(10))
  have bound: "id_num (tweet_id p) \<le> id_num (tweet_id newest)"
    by (rule newest_first_kept [OF assms(8,10) p_in])
  \<comment> \<open>the rest of the first cycle\<close>
  have "fold (poll_handle e) handles s = fold (poll_handle e) post (poll_handle e h ?sp)"
    by (simp add: split(1))
  then obtain w1 where w1: "map_of (lastSeen (poll e handles s)) h = Some w1" "w1 \<noteq> []"
      "id_num (tweet_id p) \<le> id_num w1"
    using poll_keeps_bound [OF assms(1) turn ne bound, of post] by (auto simp: poll_lastSeen)
  \<comment> \<open>the cycles after it\<close>
  let ?s' = "poll_cycles later handles (poll e handles s)"
  obtain w where w: "map_of (lastSeen ?s') h = Some w" "w \<noteq> []" "id_num (tweet_id p) \<le> id_num w"
    using cycles_keep_bound [OF assms(2) w1] by blast
  have since: "since_param ?s' h = Some w" using w(1,2) by (simp add: since_param_Some)
  have later_fetch: "\<forall>t \<in> set (fst (getNewTweets e_next userId h ?s')).
      id_num (tweet_id p) < id_num (tweet_id t)"
    using getNewTweets_newer [OF assms(3) w(1,2)] w(3) by fastforce
  show ?thesis
    using g ph ls since w(3) later_fetch by blast
qed


theorem watermark_advanced_before_processing_witness:
  "lastSeen (poll_handle
      \<lparr>users_by_username = (\<lambda>u. HttpError),
       users_tweets = (\<lambda>u w.
         if w = Some ''1000'' then HttpOk (Some
           [\<lparr>tweet_id = ''1002'', tweet_text = ''two'', in_reply_to_user_id = Null\<rparr>,
            \<lparr>tweet_id = ''1001'', tweet_text = ''one'', in_reply_to_user_id = Null\<rparr>])
         else if w = Some ''1002'' then HttpOk (Some
           [\<lparr>tweet_id = ''1003'', tweet_text = ''three'', in_reply_to_user_id = Null\<rparr>])
         else HttpOk None),
       chat_completions = (\<lambda>x. None), v2_tweet = (\<lambda>x. True), writable = (\<lambda>p. True)\<rparr>
      ''AzoniNFT''
      \<lparr>lastSeen = [(''AzoniNFT'', ''1000'')], userIds = [(''AzoniNFT'', ''42'')],
       disk = Map.empty, trace = []\<rparr>) = [(''AzoniNFT'', ''1002'')] \<and>
   since_param (poll_cycles
      [\<lparr>users_by_username = (\<lambda>u. HttpError),
       users_tweets = (\<lambda>u w.
         if w = Some ''1000'' then HttpOk (Some
           [\<lparr>tweet_id = ''1002'', tweet_text = ''two'', in_reply_to_user_id = Null\<rparr>,
            \<lparr>tweet_id = ''1001'', tweet_text = ''one'', in_reply_to_user_id = Null\<rparr>])
         else if w = Some ''1002'' then HttpOk (Some
           [\<lparr>tweet_id = ''1003'', tweet_text = ''three'', in_reply_to_user_id = Null\<rparr>])
         else HttpOk None),
       chat_completions = (\<lambda>x. None), v2_tweet = (\<lambda>x. True), writable = (\<lambda>p. True)\<rparr>]
      userHandles
      (poll
      \<lparr>users_by_username = (\<lambda>u. HttpError),
       users_tweets = (\<lambda>u w.
         if w = Some ''1000'' then HttpOk (Some
           [\<lparr>tweet_id = ''1002'', tweet_text = ''two'', in_reply_to_user_id = Null\<rparr>,
            \<lparr>tweet_id = ''1001'', tweet_text = ''one'', in_reply_to_user_id = Null\<rparr>])
         else if w = Some ''1002'' then HttpOk (Some
           [\<lparr>tweet_id = ''1003'', tweet_text = ''three'', in_reply_to_user_id = Null\<rparr>])
         else HttpOk None),
       chat_completions = (\<lambda>x. None), v2_tweet = (\<lambda>x. True), writable = (\<lambda>p. True)\<rparr>
      userHandles
      \<lparr>lastSeen = [(''AzoniNFT'', ''1000'')], userIds = [(''AzoniNFT'', ''42'')],
       disk = Map.empty, trace = []\<rparr>)) ''AzoniNFT'' = Some ''1003'' \<and>
   id_num ''1001'' \<le> id_num ''1003''"
proof -
  let ?e = "\<lparr>users_by_username = (\<lambda>u. HttpError),
       users_tweets = (\<lambda>u w.
         if w = Some ''1000'' then HttpOk (Some
           [\<lparr>tweet_id = ''1002'', tweet_text = ''two'', in_reply_to_user_id = Null\<rparr>,
            \<lparr>tweet_id = ''1001'', tweet_text = ''one'', in_reply_to_user_id = Null\<rparr>])
         else if w = Some ''1002'' then HttpOk (Some
           [\<lparr>tweet_id = ''1003'', tweet_text = ''three'', in_reply_to_user_id = Null\<rparr>])
         else HttpOk None),
       chat_completions = (\<lambda>x. None), v2_tweet = (\<lambda>x. True), writable = (\<lambda>p. True)\<rparr>"
  let ?s = "\<lparr>lastSeen = [(''AzoniNFT'', ''1000'')], userIds = [(''AzoniNFT'', ''42'')],
       disk = Map.empty, trace = []\<rparr>"
  let ?p2 = "\<lparr>tweet_id = ''1002'', tweet_text = ''two'', in_reply_to_user_id = Null\<rparr>"
  let ?p1 = "\<lparr>tweet_id = ''1001'', tweet_text = ''one'', in_reply_to_user_id = Null\<rparr>"
  have n: "id_num ''1000'' < id_num ''1002''" "id_num ''1000'' < id_num ''1001''"
    "id_num ''1002'' < id_num ''1003''" "id_num ''1001'' < id_num ''1002''"
    "id_num ''1001'' \<le> id_num ''1003''"
    by (simp_all add: id_num_def)
  have c: "since_id_respected ?e"
    using n by (auto simp: since_id_respected_def split: if_splits)
  have cs: "\<forall>e' \<in> set [?e]. since_id_respected e'" using c by simp
  have u: "map_of (userIds ?s) ''AzoniNFT'' = Some ''42''" "''42'' \<noteq> []" by simp_all
  have hin: "''AzoniNFT'' \<in> set userHandles" by (simp add: userHandles_def)
  have f: "users_tweets ?e ''42'' (since_param ?s ''AzoniNFT'') = HttpOk (Some [?p2, ?p1])"
    by (simp add: since_param_def)
  have o: "newest_first [?p2, ?p1]" using n by (simp add: newest_first_def)
  have i: "\<forall>t \<in> set [?p2, ?p1]. tweet_id t \<noteq> []" by simp
  have k: "filter (\<lambda>t. in_reply_to_user_id t = Null) [?p2, ?p1] = ?p2 # [?p1]" by simp
  have p: "?p1 \<in> set (?p2 # [?p1])" by simp
  have v: "since_param (poll_cycles [?e] userHandles (poll ?e userHandles ?s)) ''AzoniNFT''
      = Some ''1003''"
    by (simp add: poll_cycles_def poll_def userHandles_def poll_handle_def getNewTweets_def since_param_def
        writeFileSync_def generateQuote_def emit_def)
  have "lastSeen (poll_handle ?e ''AzoniNFT'' ?s) =
      AList.update ''AzoniNFT'' (tweet_id ?p2) (lastSeen ?s)"
    using watermark_advanced_before_processing [OF c cs c u hin f o i k p] by (elim conjE)
  then have a: "lastSeen (poll_handle ?e ''AzoniNFT'' ?s) = [(''AzoniNFT'', ''1002'')]"
    by simp
  show ?thesis
    by (rule conjI [OF a conjI [OF v n(5)]])
qed

end
